theory Spec2Isabelle
  imports Main "HOL-Library.Word"
begin

unbundle bit_operations_syntax

section \<open>The virtio console device of v86 (src/virtio\_console.js)\<close>

text \<open>
  The device bridges guest virtqueues and a host bus. Everything the handlers of
  \<^verbatim>\<open>virtio_console.js\<close> do is a change of the device object, of one of its
  virtqueues or of the bus, so the model passes one state record through every
  function. A JavaScript exception (a method called on \<^verbatim>\<open>undefined\<close>, a failed
  debug assertion, a request popped from an empty ring) is a value of type
  \<open>fault\<close>, and every function that can throw returns \<open>fault + result\<close>.
\<close>

subsection \<open>Constants (lines 6 to 17)\<close>

definition VIRTIO_CONSOLE_DEVICE_READY :: nat where "VIRTIO_CONSOLE_DEVICE_READY = 0"
definition VIRTIO_CONSOLE_DEVICE_ADD :: nat where "VIRTIO_CONSOLE_DEVICE_ADD = 1"
definition VIRTIO_CONSOLE_DEVICE_REMOVE :: nat where "VIRTIO_CONSOLE_DEVICE_REMOVE = 2"
definition VIRTIO_CONSOLE_PORT_READY :: nat where "VIRTIO_CONSOLE_PORT_READY = 3"
definition VIRTIO_CONSOLE_CONSOLE_PORT :: nat where "VIRTIO_CONSOLE_CONSOLE_PORT = 4"
definition VIRTIO_CONSOLE_RESIZE :: nat where "VIRTIO_CONSOLE_RESIZE = 5"
definition VIRTIO_CONSOLE_PORT_OPEN :: nat where "VIRTIO_CONSOLE_PORT_OPEN = 6"
definition VIRTIO_CONSOLE_PORT_NAME :: nat where "VIRTIO_CONSOLE_PORT_NAME = 7"

lemmas event_codes =
  VIRTIO_CONSOLE_DEVICE_READY_def VIRTIO_CONSOLE_DEVICE_ADD_def
  VIRTIO_CONSOLE_DEVICE_REMOVE_def VIRTIO_CONSOLE_PORT_READY_def
  VIRTIO_CONSOLE_CONSOLE_PORT_def VIRTIO_CONSOLE_RESIZE_def
  VIRTIO_CONSOLE_PORT_OPEN_def VIRTIO_CONSOLE_PORT_NAME_def

subsection \<open>Faults\<close>

datatype fault =
  TypeError        \<comment> \<open>a method called on \<^verbatim>\<open>this.virtio.queues[i]\<close> when it is undefined\<close>
| PopEmpty         \<comment> \<open>\<^verbatim>\<open>pop_request\<close> on a queue with no pending request\<close>
| AssertFailed     \<comment> \<open>\<^verbatim>\<open>dbg_assert(false, ...)\<close> in a debug build\<close>

definition bind_result :: "fault + 'a \<Rightarrow> ('a \<Rightarrow> fault + 'b) \<Rightarrow> fault + 'b" where
  "bind_result m f = (case m of Inl e \<Rightarrow> Inl e | Inr x \<Rightarrow> f x)"

subsection \<open>Buffer chains and virtqueues (the transport, spec section 6.1)\<close>

type_synonym byte = "8 word"
type_synonym blob = "byte list"

text \<open>
  Modelled from the spec: the buffer chain of the virtqueue transport (the source of
  \<^verbatim>\<open>VirtQueueBufferChain\<close> is not part of this unit). A chain is a handle to one
  ring slot: \<open>head_idx\<close> identifies the slot, \<open>readable\<close> is the payload the guest
  wrote (\<^verbatim>\<open>length_readable\<close> is its length, \<^verbatim>\<open>get_next_blob\<close> copies it out),
  \<open>written\<close> collects what the device wrote with \<^verbatim>\<open>set_next_blob\<close>.
\<close>

record bufchain =
  head_idx :: nat
  readable :: blob
  written :: blob

definition length_readable :: "bufchain \<Rightarrow> nat" where
  "length_readable b = length (readable b)"

definition get_next_blob :: "bufchain \<Rightarrow> nat \<Rightarrow> blob" where
  \<comment> \<open>fills a destination buffer of the given length from the readable payload\<close>
  "get_next_blob b n = take n (readable b) @ replicate (n - length (readable b)) 0"

definition set_next_blob :: "bufchain \<Rightarrow> blob \<Rightarrow> bufchain" where
  "set_next_blob b src = b\<lparr>written := written b @ src\<rparr>"

text \<open>
  Modelled from the spec: the virtqueue of the transport (\<^verbatim>\<open>VirtQueue\<close> is not part
  of this unit). \<open>pending\<close> are the requests the guest posted and the device has not
  popped, oldest first; \<open>replies\<close> are the chains the device pushed back, in order;
  \<open>flushed\<close> is how many of them \<^verbatim>\<open>flush_replies\<close> has published to the guest.
  \<^verbatim>\<open>pop_request\<close> on a queue with nothing pending is a fault (spec 6.1: "fails/undefined
  if none pending"); the chain it returns is a new handle, with nothing written yet.
\<close>

record virtqueue =
  queue_size :: nat           \<comment> \<open>\<^verbatim>\<open>queue.size\<close>, the ring's slot count\<close>
  notify :: nat               \<comment> \<open>the declared notify offset\<close>
  configured :: bool
  pending :: "bufchain list"
  replies :: "bufchain list"
  flushed :: nat

definition is_configured :: "virtqueue \<Rightarrow> bool" where
  "is_configured q = configured q"

definition has_request :: "virtqueue \<Rightarrow> bool" where
  "has_request q = (pending q \<noteq> [])"

definition count_requests :: "virtqueue \<Rightarrow> nat" where
  "count_requests q = length (pending q)"

definition pop_request :: "virtqueue \<Rightarrow> fault + (bufchain \<times> virtqueue)" where
  "pop_request q =
     (case pending q of
        [] \<Rightarrow> Inl PopEmpty
      | b # bs \<Rightarrow> Inr (b\<lparr>written := []\<rparr>, q\<lparr>pending := bs\<rparr>))"

definition push_reply :: "virtqueue \<Rightarrow> bufchain \<Rightarrow> virtqueue" where
  "push_reply q b = q\<lparr>replies := replies q @ [b]\<rparr>"

definition flush_replies :: "virtqueue \<Rightarrow> virtqueue" where
  "flush_replies q = q\<lparr>flushed := length (replies q)\<rparr>"

subsection \<open>Marshalling (spec section 6.4)\<close>

text \<open>
  Modelled from the spec: \<^verbatim>\<open>marshall.Marshall\<close> and \<^verbatim>\<open>marshall.Unmarshall\<close> (the marshalling
  library is not part of this unit). A \<^verbatim>\<open>"w"\<close> is a 32-bit and an \<^verbatim>\<open>"h"\<close> a 16-bit
  unsigned field, little-endian. \<open>Marshall\<close> writes the fields into a buffer from an
  offset; a write past the end of a typed array is dropped, as \<open>list_update\<close> does.
  \<open>Unmarshall\<close> is \<open>None\<close> when the buffer is shorter than the fields asked for.
\<close>

fun le_bytes :: "nat \<Rightarrow> nat \<Rightarrow> blob" where
  "le_bytes 0 v = []"
| "le_bytes (Suc n) v = word_of_nat (v mod 256) # le_bytes n (v div 256)"

fun le_value :: "blob \<Rightarrow> nat" where
  "le_value [] = 0"
| "le_value (b # bs) = unat b + 256 * le_value bs"

definition field_width :: "string \<Rightarrow> nat" where
  "field_width t = (if t = ''w'' then 4 else if t = ''h'' then 2 else 0)"

fun Marshall_bytes :: "string list \<Rightarrow> nat list \<Rightarrow> blob" where
  "Marshall_bytes (t # ts) (v # vs) = le_bytes (field_width t) v @ Marshall_bytes ts vs"
| "Marshall_bytes _ _ = []"

fun write_bytes :: "blob \<Rightarrow> nat \<Rightarrow> blob \<Rightarrow> blob" where
  "write_bytes buf off [] = buf"
| "write_bytes buf off (x # xs) = write_bytes (buf[off := x]) (Suc off) xs"

definition Marshall :: "string list \<Rightarrow> nat list \<Rightarrow> blob \<Rightarrow> nat \<Rightarrow> blob" where
  "Marshall typelist input struct off = write_bytes struct off (Marshall_bytes typelist input)"

fun Unmarshall :: "string list \<Rightarrow> blob \<Rightarrow> nat \<Rightarrow> nat list option" where
  "Unmarshall [] struct off = Some []"
| "Unmarshall (t # ts) struct off =
     (if off + field_width t \<le> length struct
      then map_option (\<lambda>vs. le_value (take (field_width t) (drop off struct)) # vs)
             (Unmarshall ts struct (off + field_width t))
      else None)"

subsection \<open>Strings\<close>

text \<open>
  \<^verbatim>\<open>"virtio-" + port\<close> converts the number to its decimal digits; \<^verbatim>\<open>TextEncoder\<close> turns
  the (ASCII) string into its bytes.
\<close>

fun String_of_nat :: "nat \<Rightarrow> string" where
  "String_of_nat n =
     (if n < 10 then [char_of (48 + n)]
      else String_of_nat (n div 10) @ [char_of (48 + n mod 10)])"

declare String_of_nat.simps [simp del]

definition TextEncoder_encode :: "string \<Rightarrow> blob" where
  "TextEncoder_encode name = map of_char name"

subsection \<open>The device\<close>

record VirtioConsole =
  rows :: nat
  cols :: nat
  ports :: nat
  consolePortEnable :: int
  queues :: "virtqueue list"              \<comment> \<open>\<^verbatim>\<open>this.virtio.queues\<close>\<close>
  bus_sent :: "(string \<times> blob) list"       \<comment> \<open>what \<^verbatim>\<open>this.bus.send\<close> published, in order\<close>
  DEBUG :: bool                           \<comment> \<open>a debug build: \<^verbatim>\<open>dbg_assert\<close> throws\<close>

record options =
  opt_rows :: "nat option"
  opt_cols :: "nat option"
  opt_ports :: "nat option"
  opt_consolePortEnable :: "int option"

record queue_decl =
  size_supported :: nat
  notify_offset :: nat

text \<open>Lines 50 to 73: the four fixed queues, then a pair for each port from 1.\<close>

function push_port_queues :: "nat \<Rightarrow> nat \<Rightarrow> queue_decl list \<Rightarrow> queue_decl list" where
  "push_port_queues i n qs =
     (if i < n
      then push_port_queues (Suc i) n
             (qs @ [\<lparr>size_supported = 16, notify_offset = 0\<rparr>,
                    \<lparr>size_supported = 8, notify_offset = 1\<rparr>])
      else qs)"
  by pat_completeness auto
termination
  by (relation "measure (\<lambda>(i, n, qs). n - i)") auto

declare push_port_queues.simps [simp del]

definition declared_queues :: "nat \<Rightarrow> queue_decl list" where
  "declared_queues n =
     push_port_queues 1 n
       [\<lparr>size_supported = 16, notify_offset = 0\<rparr>,
        \<lparr>size_supported = 16, notify_offset = 1\<rparr>,
        \<lparr>size_supported = 16, notify_offset = 2\<rparr>,
        \<lparr>size_supported = 16, notify_offset = 3\<rparr>]"

text \<open>
  Modelled from the spec: \<^verbatim>\<open>declare_queue(capacity, notify_offset)\<close> of the transport
  (the \<^verbatim>\<open>VirtIO\<close> constructor is not part of this unit): a declared queue starts with
  its declared capacity, not configured and empty.
\<close>

definition declare_queue :: "queue_decl \<Rightarrow> virtqueue" where
  "declare_queue d =
     \<lparr>queue_size = size_supported d, notify = notify_offset d, configured = False,
      pending = [], replies = [], flushed = 0\<rparr>"

definition new_VirtioConsole :: "options \<Rightarrow> bool \<Rightarrow> VirtioConsole" where
  "new_VirtioConsole opts dbg =
     (let r = (case opt_rows opts of Some v \<Rightarrow> v | None \<Rightarrow> 25);
          c = (case opt_cols opts of Some v \<Rightarrow> v | None \<Rightarrow> 80);
          p = (case opt_ports opts of Some v \<Rightarrow> v | None \<Rightarrow> 4);
          e = (case opt_consolePortEnable opts of Some v \<Rightarrow> v | None \<Rightarrow> 15)
      in \<lparr>rows = r, cols = c, ports = p, consolePortEnable = e,
          queues = map declare_queue (declared_queues p), bus_sent = [], DEBUG = dbg\<rparr>)"

subsection \<open>Access to the queues\<close>

text \<open>
  \<^verbatim>\<open>this.virtio.queues[i]\<close> is a reference to a queue object, and the methods change the
  object in place: the model reads the queue out of the state and writes it back. An
  index with no queue gives \<^verbatim>\<open>undefined\<close>, and the method call on it throws.
\<close>

definition the_queue :: "VirtioConsole \<Rightarrow> nat \<Rightarrow> fault + virtqueue" where
  "the_queue s i = (if i < length (queues s) then Inr (queues s ! i) else Inl TypeError)"

definition put_queue :: "VirtioConsole \<Rightarrow> nat \<Rightarrow> virtqueue \<Rightarrow> VirtioConsole" where
  "put_queue s i q = s\<lparr>queues := (queues s)[i := q]\<rparr>"

definition on_queue :: "VirtioConsole \<Rightarrow> nat \<Rightarrow> (virtqueue \<Rightarrow> virtqueue) \<Rightarrow> fault + VirtioConsole" where
  "on_queue s i f = (case the_queue s i of Inl e \<Rightarrow> Inl e | Inr q \<Rightarrow> Inr (put_queue s i (f q)))"

definition pop_from :: "VirtioConsole \<Rightarrow> nat \<Rightarrow> fault + (bufchain \<times> VirtioConsole)" where
  "pop_from s i =
     (case the_queue s i of
        Inl e \<Rightarrow> Inl e
      | Inr q \<Rightarrow>
          (case pop_request q of
             Inl e \<Rightarrow> Inl e
           | Inr (b, q') \<Rightarrow> Inr (b, put_queue s i q')))"

definition bus_send :: "VirtioConsole \<Rightarrow> string \<Rightarrow> blob \<Rightarrow> VirtioConsole" where
  "bus_send s name data = s\<lparr>bus_sent := bus_sent s @ [(name, data)]\<rparr>"

definition dbg_assert :: "VirtioConsole \<Rightarrow> bool \<Rightarrow> fault + unit" where
  \<comment> \<open>spec section 7: fatal in a debug build, nothing in production\<close>
  "dbg_assert s cond = (if DEBUG s \<and> \<not> cond then Inl AssertFailed else Inr ())"

subsection \<open>Send and Ack (lines 304 to 316)\<close>

definition Send :: "VirtioConsole \<Rightarrow> nat \<Rightarrow> bufchain \<Rightarrow> blob \<Rightarrow> fault + VirtioConsole" where
  "Send s queue_id bufchain data =
     (let bufchain' = set_next_blob bufchain data in
      bind_result (on_queue s queue_id (\<lambda>q. push_reply q bufchain'))
        (\<lambda>s1. on_queue s1 queue_id flush_replies))"

definition Ack :: "VirtioConsole \<Rightarrow> nat \<Rightarrow> bufchain \<Rightarrow> fault + VirtioConsole" where
  "Ack s queue_id bufchain =
     (let bufchain' = set_next_blob bufchain [] in
      bind_result (on_queue s queue_id (\<lambda>q. push_reply q bufchain'))
        (\<lambda>s1. on_queue s1 queue_id flush_replies))"

subsection \<open>SendEvent, SendWindowSize, SendName (lines 248 to 267 and 294 to 302)\<close>

definition SendEvent :: "VirtioConsole \<Rightarrow> nat \<Rightarrow> nat \<Rightarrow> nat \<Rightarrow> fault + VirtioConsole" where
  "SendEvent s port event val =
     bind_result (pop_from s 2)
       (\<lambda>(bufchain, s1).
          let buf = replicate 8 0;
              buf = Marshall [''w'', ''h'', ''h''] [port, event, val] buf 0
          in Send s1 2 bufchain buf)"

definition SendWindowSize :: "VirtioConsole \<Rightarrow> nat \<Rightarrow> fault + VirtioConsole" where
  "SendWindowSize s port =
     bind_result (pop_from s 2)
       (\<lambda>(bufchain, s1).
          let buf = replicate 12 0;
              buf = Marshall [''w'', ''h'', ''h'', ''h'', ''h'']
                      [port, VIRTIO_CONSOLE_RESIZE, 0, rows s1, cols s1] buf 0
          in Send s1 2 bufchain buf)"

function copy_name :: "blob \<Rightarrow> blob \<Rightarrow> nat \<Rightarrow> blob" where
  "copy_name buf namex i =
     (if i < length namex then copy_name (buf[i + 8 := namex ! i]) namex (Suc i) else buf)"
  by pat_completeness auto
termination
  by (relation "measure (\<lambda>(buf, namex, i). length namex - i)") auto

declare copy_name.simps [simp del]

definition SendName :: "VirtioConsole \<Rightarrow> nat \<Rightarrow> string \<Rightarrow> fault + VirtioConsole" where
  "SendName s port name =
     bind_result (pop_from s 2)
       (\<lambda>(bufchain, s1).
          let namex = TextEncoder_encode name;
              buf = replicate (8 + length namex + 1) 0;
              buf = Marshall [''w'', ''h'', ''h''] [port, VIRTIO_CONSOLE_PORT_NAME, 1] buf 0;
              buf = copy_name buf namex 0;
              buf = buf[8 + length namex := 0]
          in Send s1 2 bufchain buf)"

subsection \<open>The notification handlers (lines 100 to 183)\<close>

text \<open>
  Lines 105 and 130 are the same loop: pop while more than \<^verbatim>\<open>queue.size - 2\<close> requests
  are pending. The popped chain is dropped. The subtraction is JavaScript's, on numbers,
  so it is done on \<open>int\<close>.
\<close>

function drain_excess :: "virtqueue \<Rightarrow> fault + virtqueue" where
  "drain_excess queue =
     (if int (count_requests queue) > int (queue_size queue) - 2
      then (case pop_request queue of
              Inl e \<Rightarrow> Inl e
            | Inr (bufchain, queue') \<Rightarrow> drain_excess queue')
      else Inr queue)"
  by pat_completeness auto
termination
  by (relation "measure (\<lambda>q. length (pending q))")
     (auto simp: pop_request_def split: list.splits)

declare drain_excess.simps [simp del]

definition handler0 :: "VirtioConsole \<Rightarrow> nat \<Rightarrow> fault + VirtioConsole" where
  "handler0 s queue_id =
     (case the_queue s queue_id of
        Inl e \<Rightarrow> Inl e
      | Inr queue \<Rightarrow>
          (case drain_excess queue of
             Inl e \<Rightarrow> Inl e
           | Inr queue' \<Rightarrow> Inr (put_queue s queue_id queue')))"

definition output_channel :: "nat \<Rightarrow> string" where
  "output_channel port = ''virtio-console'' @ String_of_nat port @ ''-output-bytes''"

text \<open>
  Line 110: \<^verbatim>\<open>queue_id > 3 ? (queue_id-3 >> 1) : 0\<close>. A queue index is an index into the
  declared queues, far below \<open>2^31\<close>, where the 32-bit shift is division by 2.
\<close>

definition port_of_queue :: "nat \<Rightarrow> nat" where
  "port_of_queue queue_id = (if queue_id > 3 then (queue_id - 3) div 2 else 0)"

function handler1_loop :: "VirtioConsole \<Rightarrow> nat \<Rightarrow> nat \<Rightarrow> fault + VirtioConsole" where
  "handler1_loop s queue_id port =
     (case the_queue s queue_id of
        Inl e \<Rightarrow> Inl e
      | Inr queue \<Rightarrow>
          if has_request queue
          then (case pop_from s queue_id of
                  Inl e \<Rightarrow> Inl e
                | Inr (bufchain, s1) \<Rightarrow>
                    (let buffer = get_next_blob bufchain (length_readable bufchain);
                         s2 = bus_send s1 (output_channel port) buffer
                     in case Ack s2 queue_id bufchain of
                          Inl e \<Rightarrow> Inl e
                        | Inr s3 \<Rightarrow> handler1_loop s3 queue_id port))
          else Inr s)"
  by pat_completeness auto
termination
  by (relation "measure (\<lambda>(s, queue_id, port). length (pending (queues s ! queue_id)))")
     (auto simp: pop_from_def pop_request_def the_queue_def put_queue_def bus_send_def Ack_def
        on_queue_def bind_result_def push_reply_def flush_replies_def Let_def
        split: list.splits if_splits sum.splits)

declare handler1_loop.simps [simp del]

definition handler1 :: "VirtioConsole \<Rightarrow> nat \<Rightarrow> fault + VirtioConsole" where
  "handler1 s queue_id = handler1_loop s queue_id (port_of_queue queue_id)"

definition handler2 :: "VirtioConsole \<Rightarrow> nat \<Rightarrow> fault + VirtioConsole" where
  "handler2 s queue_id =
     (if queue_id \<noteq> 2
      then (case dbg_assert s False of Inl e \<Rightarrow> Inl e | Inr _ \<Rightarrow> Inr s)
      else (case the_queue s queue_id of
              Inl e \<Rightarrow> Inl e
            | Inr queue \<Rightarrow>
                (case drain_excess queue of
                   Inl e \<Rightarrow> Inl e
                 | Inr queue' \<Rightarrow> Inr (put_queue s queue_id queue'))))"



subsection \<open>The control-transmit handler (lines 132 to 183)\<close>

text \<open>
  Line 165: \<^verbatim>\<open>(1 << port) & this.consolePortEnable\<close>. JavaScript shifts a 32-bit integer
  by the count modulo 32, and \<^verbatim>\<open>&\<close> takes its operands modulo \<open>2^32\<close>; the test is
  that the result is not zero.
\<close>

definition port_is_console :: "VirtioConsole \<Rightarrow> nat \<Rightarrow> bool" where
  "port_is_console s port =
     ((push_bit (port mod 32) 1 AND (word_of_int (consolePortEnable s) :: 32 word)) \<noteq> 0)"

text \<open>
  No operation of the device posts a request: the pending lists only shrink, and the
  port count stays. The loops below terminate by this.
\<close>

definition shrinks :: "VirtioConsole \<Rightarrow> VirtioConsole \<Rightarrow> bool" where
  "shrinks s s' \<longleftrightarrow>
     length (queues s') = length (queues s) \<and> ports s' = ports s \<and>
     (\<forall>i. length (pending (queues s' ! i)) \<le> length (pending (queues s ! i)))"

lemma shrinks_refl: "shrinks s s"
  by (simp add: shrinks_def)

lemma shrinks_trans: "shrinks a b \<Longrightarrow> shrinks b c \<Longrightarrow> shrinks a c"
  unfolding shrinks_def using order_trans by fastforce

lemma Send_shrinks: "Send s q b d = Inr s' \<Longrightarrow> shrinks s s'"
  by (auto simp: shrinks_def Send_def on_queue_def the_queue_def put_queue_def bind_result_def
      push_reply_def flush_replies_def Let_def nth_list_update
      split: if_splits sum.splits)

lemma Ack_shrinks: "Ack s q b = Inr s' \<Longrightarrow> shrinks s s'"
  by (auto simp: shrinks_def Ack_def on_queue_def the_queue_def put_queue_def bind_result_def
      push_reply_def flush_replies_def Let_def nth_list_update
      split: if_splits sum.splits)

lemma pop_from_shrinks: "pop_from s q = Inr (b, s') \<Longrightarrow> shrinks s s'"
  by (auto simp: shrinks_def pop_from_def pop_request_def the_queue_def put_queue_def
      nth_list_update split: if_splits sum.splits list.splits)

lemma pop_from_less:
  "pop_from s q = Inr (b, s') \<Longrightarrow>
     length (pending (queues s' ! q)) < length (pending (queues s ! q))"
  by (auto simp: pop_from_def pop_request_def the_queue_def put_queue_def
      split: if_splits sum.splits list.splits)

lemma SendEvent_shrinks:
  assumes "SendEvent s p e v = Inr s'"
  shows "shrinks s s'"
proof -
  from assms obtain b s1 d where 1: "pop_from s 2 = Inr (b, s1)" and 2: "Send s1 2 b d = Inr s'"
    by (auto simp: SendEvent_def bind_result_def Let_def split: sum.splits)
  from pop_from_shrinks [OF 1] Send_shrinks [OF 2] show ?thesis by (rule shrinks_trans)
qed

lemma SendName_shrinks:
  assumes "SendName s p n = Inr s'"
  shows "shrinks s s'"
proof -
  from assms obtain b s1 d where 1: "pop_from s 2 = Inr (b, s1)" and 2: "Send s1 2 b d = Inr s'"
    by (auto simp: SendName_def bind_result_def Let_def split: sum.splits)
  from pop_from_shrinks [OF 1] Send_shrinks [OF 2] show ?thesis by (rule shrinks_trans)
qed

lemma SendWindowSize_shrinks:
  assumes "SendWindowSize s p = Inr s'"
  shows "shrinks s s'"
proof -
  from assms obtain b s1 d where 1: "pop_from s 2 = Inr (b, s1)" and 2: "Send s1 2 b d = Inr s'"
    by (auto simp: SendWindowSize_def bind_result_def Let_def split: sum.splits)
  from pop_from_shrinks [OF 1] Send_shrinks [OF 2] show ?thesis by (rule shrinks_trans)
qed

text \<open>Lines 159 to 161: one \<^verbatim>\<open>DeviceAdd\<close> for each port, from 0.\<close>

function send_device_adds :: "VirtioConsole \<Rightarrow> nat \<Rightarrow> fault + VirtioConsole" where
  "send_device_adds s i =
     (if i < ports s
      then (case SendEvent s i VIRTIO_CONSOLE_DEVICE_ADD 0 of
              Inl e \<Rightarrow> Inl e
            | Inr s' \<Rightarrow> send_device_adds s' (Suc i))
      else Inr s)"
  by pat_completeness auto
termination
proof (relation "measure (\<lambda>(s, i). ports s - i)")
  fix s i s'
  assume "i < ports s" "SendEvent s i VIRTIO_CONSOLE_DEVICE_ADD 0 = Inr s'"
  then show "((s', Suc i), (s, i)) \<in> measure (\<lambda>(s, i). ports s - i)"
    using SendEvent_shrinks [of s i VIRTIO_CONSOLE_DEVICE_ADD 0 s'] by (simp add: shrinks_def)
qed simp

declare send_device_adds.simps [simp del]

lemma send_device_adds_shrinks:
  "send_device_adds s i = Inr s' \<Longrightarrow> shrinks s s'"
proof (induction s i rule: send_device_adds.induct)
  case (1 s i)
  show ?case
  proof (cases "i < ports s")
    case False
    with "1.prems" show ?thesis by (simp add: send_device_adds.simps [of s i] shrinks_refl)
  next
    case True
    with "1.prems" obtain s1 where a: "SendEvent s i VIRTIO_CONSOLE_DEVICE_ADD 0 = Inr s1"
      and b: "send_device_adds s1 (Suc i) = Inr s'"
      by (auto simp: send_device_adds.simps [of s i] split: sum.splits)
    from SendEvent_shrinks [OF a] "1.IH" [OF True a b] show ?thesis by (rule shrinks_trans)
  qed
qed


text \<open>
  The body of the loop of lines 142 to 182, for one popped chain. The \<^verbatim>\<open>return\<close> of the
  default case leaves the handler, a \<^verbatim>\<open>break\<close> goes on with the loop. The chain is
  acknowledged before the \<^verbatim>\<open>switch\<close> (line 155), and once more in the \<^verbatim>\<open>PORT_READY\<close>
  and \<^verbatim>\<open>PORT_OPEN\<close> cases (lines 164 and 172). A payload shorter than the three fields
  has no event code and takes the default case (spec section 7).
\<close>

datatype flow = Break | Return

definition unknown_event :: "VirtioConsole \<Rightarrow> fault + (VirtioConsole \<times> flow)" where
  "unknown_event s = (case dbg_assert s False of Inl e \<Rightarrow> Inl e | Inr _ \<Rightarrow> Inr (s, Return))"

definition port_ready :: "VirtioConsole \<Rightarrow> nat \<Rightarrow> bufchain \<Rightarrow> nat \<Rightarrow> fault + VirtioConsole" where
  "port_ready s queue_id bufchain port =
     bind_result (Ack s queue_id bufchain)
       (\<lambda>s1. bind_result
          (if port_is_console s1 port
           then SendEvent s1 port VIRTIO_CONSOLE_CONSOLE_PORT 1
           else Inr s1)
          (\<lambda>s2. bind_result (SendName s2 port (''virtio-'' @ String_of_nat port))
             (\<lambda>s3. SendEvent s3 port VIRTIO_CONSOLE_PORT_OPEN 1)))"

definition port_open :: "VirtioConsole \<Rightarrow> nat \<Rightarrow> bufchain \<Rightarrow> nat \<Rightarrow> fault + VirtioConsole" where
  "port_open s queue_id bufchain port =
     bind_result (Ack s queue_id bufchain)
       (\<lambda>s1. if port = 0 then SendWindowSize s1 port else Inr s1)"

definition control_message :: "VirtioConsole \<Rightarrow> nat \<Rightarrow> bufchain \<Rightarrow> fault + (VirtioConsole \<times> flow)" where
  "control_message s queue_id bufchain =
     (let buffer = get_next_blob bufchain (length_readable bufchain);
          parts = Unmarshall [''w'', ''h'', ''h''] buffer 0
      in bind_result (Ack s queue_id bufchain)
           (\<lambda>s1. case parts of
                    None \<Rightarrow> unknown_event s1
                  | Some parts \<Rightarrow>
                      (let port = parts ! 0; event = parts ! 1; val = parts ! 2
                       in if event = VIRTIO_CONSOLE_DEVICE_READY then
                            bind_result (send_device_adds s1 0) (\<lambda>s2. Inr (s2, Break))
                          else if event = VIRTIO_CONSOLE_PORT_READY then
                            bind_result (port_ready s1 queue_id bufchain port) (\<lambda>s2. Inr (s2, Break))
                          else if event = VIRTIO_CONSOLE_PORT_OPEN then
                            bind_result (port_open s1 queue_id bufchain port) (\<lambda>s2. Inr (s2, Break))
                          else unknown_event s1)))"

lemma bind_result_Inr:
  "bind_result m f = Inr y \<longleftrightarrow> (\<exists>x. m = Inr x \<and> f x = Inr y)"
  by (cases m) (simp_all add: bind_result_def)

lemma unknown_event_shrinks: "unknown_event s = Inr (s', f) \<Longrightarrow> shrinks s s'"
  by (auto simp: unknown_event_def shrinks_refl split: sum.splits)

lemma port_ready_shrinks:
  assumes "port_ready s q b p = Inr s'"
  shows "shrinks s s'"
proof -
  from assms obtain s1 s2 s3 where
    a: "Ack s q b = Inr s1" and
    b: "(if port_is_console s1 p
         then SendEvent s1 p VIRTIO_CONSOLE_CONSOLE_PORT 1 else Inr s1) = Inr s2" and
    c: "SendName s2 p (''virtio-'' @ String_of_nat p) = Inr s3" and
    d: "SendEvent s3 p VIRTIO_CONSOLE_PORT_OPEN 1 = Inr s'"
    unfolding port_ready_def bind_result_Inr by blast
  have "shrinks s1 s2"
    using b SendEvent_shrinks [of s1 p VIRTIO_CONSOLE_CONSOLE_PORT 1 s2]
    by (simp add: shrinks_refl split: if_splits)
  with Ack_shrinks [OF a] SendName_shrinks [OF c] SendEvent_shrinks [OF d]
  show ?thesis by (blast intro: shrinks_trans)
qed

lemma port_open_shrinks:
  assumes "port_open s q b p = Inr s'"
  shows "shrinks s s'"
proof -
  from assms obtain s1 where
    a: "Ack s q b = Inr s1" and
    b: "(if p = 0 then SendWindowSize s1 p else Inr s1) = Inr s'"
    unfolding port_open_def bind_result_Inr by blast
  have "shrinks s1 s'"
    using b SendWindowSize_shrinks [of s1 p s'] by (simp add: shrinks_refl split: if_splits)
  with Ack_shrinks [OF a] show ?thesis by (blast intro: shrinks_trans)
qed

lemma control_message_shrinks:
  assumes "control_message s q b = Inr (s', f)"
  shows "shrinks s s'"
proof -
  let ?parts = "Unmarshall [''w'', ''h'', ''h''] (get_next_blob b (length_readable b)) 0"
  from assms obtain s1 where ack: "Ack s q b = Inr s1" and
    rest: "(case ?parts of
              None \<Rightarrow> unknown_event s1
            | Some parts \<Rightarrow>
                (let port = parts ! 0; event = parts ! 1; val = parts ! 2
                 in if event = VIRTIO_CONSOLE_DEVICE_READY then
                      bind_result (send_device_adds s1 0) (\<lambda>s2. Inr (s2, Break))
                    else if event = VIRTIO_CONSOLE_PORT_READY then
                      bind_result (port_ready s1 q b port) (\<lambda>s2. Inr (s2, Break))
                    else if event = VIRTIO_CONSOLE_PORT_OPEN then
                      bind_result (port_open s1 q b port) (\<lambda>s2. Inr (s2, Break))
                    else unknown_event s1)) = Inr (s', f)"
    unfolding control_message_def Let_def bind_result_Inr by blast
  have "shrinks s1 s'"
    using rest
    by (auto simp: Let_def bind_result_Inr split: option.splits if_splits
        dest: unknown_event_shrinks send_device_adds_shrinks port_ready_shrinks port_open_shrinks)
  with Ack_shrinks [OF ack] show ?thesis by (rule shrinks_trans)
qed

function handler3_loop :: "VirtioConsole \<Rightarrow> nat \<Rightarrow> fault + VirtioConsole" where
  "handler3_loop s queue_id =
     (case the_queue s queue_id of
        Inl e \<Rightarrow> Inl e
      | Inr queue \<Rightarrow>
          if has_request queue
          then (case pop_from s queue_id of
                  Inl e \<Rightarrow> Inl e
                | Inr (bufchain, s1) \<Rightarrow>
                    (case control_message s1 queue_id bufchain of
                       Inl e \<Rightarrow> Inl e
                     | Inr (s2, Return) \<Rightarrow> Inr s2
                     | Inr (s2, Break) \<Rightarrow> handler3_loop s2 queue_id))
          else Inr s)"
  by pat_completeness auto
termination
proof (relation "measure (\<lambda>(s, queue_id). length (pending (queues s ! queue_id)))")
  fix s queue_id queue x bufchain s1 y s2 f
  assume "pop_from s queue_id = Inr x" "(bufchain, s1) = x"
    "control_message s1 queue_id bufchain = Inr y" "(s2, f) = y"
  then have 1: "pop_from s queue_id = Inr (bufchain, s1)"
    and 2: "control_message s1 queue_id bufchain = Inr (s2, f)"
    by simp_all
  have "length (pending (queues s2 ! queue_id)) \<le> length (pending (queues s1 ! queue_id))"
    using control_message_shrinks [OF 2] by (simp add: shrinks_def)
  moreover have "length (pending (queues s1 ! queue_id)) < length (pending (queues s ! queue_id))"
    using 1 by (rule pop_from_less)
  ultimately show "((s2, queue_id), (s, queue_id))
      \<in> measure (\<lambda>(s, queue_id). length (pending (queues s ! queue_id)))"
    by simp
qed simp

declare handler3_loop.simps [simp del]

definition handler3 :: "VirtioConsole \<Rightarrow> nat \<Rightarrow> fault + VirtioConsole" where
  "handler3 s queue_id =
     (if queue_id \<noteq> 3
      then (case dbg_assert s False of Inl e \<Rightarrow> Inl e | Inr _ \<Rightarrow> Inr s)
      else handler3_loop s queue_id)"

subsection \<open>The bus listeners (lines 225 to 245)\<close>

definition input_queue_index :: "nat \<Rightarrow> nat" where
  "input_queue_index port = (if port = 0 then 0 else port * 2 + 2)"

definition on_input_bytes :: "VirtioConsole \<Rightarrow> nat \<Rightarrow> blob \<Rightarrow> fault + VirtioConsole" where
  "on_input_bytes s port data =
     (let queue_index = input_queue_index port
      in case the_queue s queue_index of
           Inl e \<Rightarrow> Inl e
         | Inr queue \<Rightarrow>
             if has_request queue
             then bind_result (pop_from s queue_index)
                    (\<lambda>(bufchain, s1). Send s1 queue_index bufchain data)
             else Inr s)"

definition on_resize :: "VirtioConsole \<Rightarrow> nat \<Rightarrow> nat \<times> nat \<Rightarrow> fault + VirtioConsole" where
  "on_resize s port sz =
     (let s1 = s\<lparr>cols := fst sz\<rparr>;
          s2 = s1\<lparr>rows := snd sz\<rparr>
      in case the_queue s2 2 of
           Inl e \<Rightarrow> Inl e
         | Inr queue \<Rightarrow>
             if is_configured queue \<and> has_request queue
             then SendWindowSize s2 port
             else Inr s2)"


section \<open>Properties\<close>

subsection \<open>The declared queues\<close>

lemma push_port_queues_eq:
  "push_port_queues i n qs =
     qs @ concat (replicate (n - i)
       [\<lparr>size_supported = 16, notify_offset = 0\<rparr>, \<lparr>size_supported = 8, notify_offset = 1\<rparr>])"
proof (induction i n qs rule: push_port_queues.induct)
  case (1 i n qs)
  show ?case
  proof (cases "i < n")
    case True
    then have "n - i = Suc (n - Suc i)" by simp
    with True "1.IH" show ?thesis
      by (simp add: push_port_queues.simps [of i n qs])
  next
    case False
    then show ?thesis by (simp add: push_port_queues.simps [of i n qs])
  qed
qed

lemma nth_concat_pairs:
  "i < 2 * k \<Longrightarrow> concat (replicate k [a, b]) ! i = (if even i then a else b)"
proof (induction k arbitrary: i)
  case 0
  then show ?case by simp
next
  case (Suc k)
  show ?case
  proof (cases "i < 2")
    case True
    then have "i = 0 \<or> i = 1" by auto
    then show ?thesis by auto
  next
    case False
    then obtain j where j: "i = Suc (Suc j)" by (metis Suc_lessI less_2_cases_iff not0_implies_Suc numeral_2_eq_2 zero_less_Suc)
    with Suc.prems have "j < 2 * k" by simp
    with Suc.IH [of j] j show ?thesis by simp
  qed
qed

lemma length_declared_queues: "length (declared_queues n) = 4 + 2 * (n - 1)"
  by (simp add: declared_queues_def push_port_queues_eq length_concat sum_list_replicate)

lemma declared_queues_nth:
  assumes "q < 4 + 2 * (n - 1)"
  shows "declared_queues n ! q =
     (if q < 4 then \<lparr>size_supported = 16, notify_offset = q\<rparr>
      else if even q then \<lparr>size_supported = 16, notify_offset = 0\<rparr>
      else \<lparr>size_supported = 8, notify_offset = 1\<rparr>)"
proof (cases "q < 4")
  case True
  then have "q = 0 \<or> q = 1 \<or> q = 2 \<or> q = 3" by auto
  then show ?thesis
    by (auto simp: declared_queues_def push_port_queues_eq)
next
  case False
  define base :: "queue_decl list" where
    "base = [\<lparr>size_supported = 16, notify_offset = 0\<rparr>, \<lparr>size_supported = 16, notify_offset = 1\<rparr>,
             \<lparr>size_supported = 16, notify_offset = 2\<rparr>, \<lparr>size_supported = 16, notify_offset = 3\<rparr>]"
  define rest :: "queue_decl list" where
    "rest = concat (replicate (n - 1)
       [\<lparr>size_supported = 16, notify_offset = 0\<rparr>, \<lparr>size_supported = 8, notify_offset = 1\<rparr>])"
  have len: "length base = 4" by (simp add: base_def)
  have "declared_queues n = base @ rest"
    by (simp add: declared_queues_def push_port_queues_eq base_def rest_def)
  then have "declared_queues n ! q = rest ! (q - 4)"
    using False by (simp add: nth_append len)
  moreover from assms False have "q - 4 < 2 * (n - 1)" by simp
  then have "rest ! (q - 4) =
      (if even (q - 4) then \<lparr>size_supported = 16, notify_offset = 0\<rparr>
       else \<lparr>size_supported = 8, notify_offset = 1\<rparr>)"
    unfolding rest_def by (rule nth_concat_pairs)
  moreover from False have "even (q - 4) = even q" by simp
  ultimately show ?thesis using False by simp
qed


lemma new_VirtioConsole_queue:
  assumes "q < 4 + 2 * (ports (new_VirtioConsole opts dbg) - 1)"
  shows "queues (new_VirtioConsole opts dbg) ! q =
           declare_queue (declared_queues (ports (new_VirtioConsole opts dbg)) ! q)"
  using assms by (simp add: new_VirtioConsole_def Let_def length_declared_queues)

text \<open>
  Claim C10. A device built by the constructor has the four fixed queues and a pair for
  each port from 1, so \<open>4 + 2 * (ports - 1)\<close> queues. Queues 0 to 3 have 16 slots. For a
  port \<open>p\<close> from 1, the receive queue (index \<open>2p + 2\<close>) has 16 slots and the transmit
  queue (index \<open>2p + 3\<close>, the queue the transmit handler maps back to \<open>p\<close>) has 8. Hence
  \<^verbatim>\<open>queue.size - 2\<close>, the bound of the loop of lines 105 and 130, is 14 for queue 2 and
  for the receive queue of every port from 1.
\<close>

theorem queue_capacities:
  assumes "d = new_VirtioConsole opts dbg"
  shows "length (queues d) = 4 + 2 * (ports d - 1) \<and>
         (\<forall>q. q < 4 \<longrightarrow> queue_size (queues d ! q) = 16) \<and>
         (\<forall>p. 1 \<le> p \<and> p < ports d \<longrightarrow>
            input_queue_index p + 1 < length (queues d) \<and>
            queue_size (queues d ! input_queue_index p) = 16 \<and>
            port_of_queue (input_queue_index p + 1) = p \<and>
            queue_size (queues d ! (input_queue_index p + 1)) = 8) \<and>
         int (queue_size (queues d ! 2)) - 2 = 14 \<and>
         (\<forall>p. 1 \<le> p \<and> p < ports d \<longrightarrow>
            int (queue_size (queues d ! input_queue_index p)) - 2 = 14)"
proof -
  have len: "length (queues d) = 4 + 2 * (ports d - 1)"
    by (simp add: assms new_VirtioConsole_def Let_def length_declared_queues)
  have size: "queue_size (queues d ! q) = (if 3 < q \<and> odd q then 8 else 16)"
    if "q < 4 + 2 * (ports d - 1)" for q
    using that new_VirtioConsole_queue [of q opts dbg] declared_queues_nth [of q "ports d"]
    by (auto simp: assms declare_queue_def)
  have low: "queue_size (queues d ! q) = 16" if "q < 4" for q
    using that size [of q] by simp
  have port: "input_queue_index p + 1 < length (queues d) \<and>
      queue_size (queues d ! input_queue_index p) = 16 \<and>
      port_of_queue (input_queue_index p + 1) = p \<and>
      queue_size (queues d ! (input_queue_index p + 1)) = 8"
    if "1 \<le> p \<and> p < ports d" for p
  proof -
    from that have rx: "input_queue_index p = 2 * p + 2"
      and tx: "input_queue_index p + 1 = 2 * p + 3"
      and b: "2 * p + 3 < 4 + 2 * (ports d - 1)"
      by (auto simp: input_queue_index_def)
    from b have 1: "2 * p + 3 < length (queues d)" by (simp only: len)
    from b have 2: "queue_size (queues d ! (2 * p + 2)) = 16"
      using size [of "2 * p + 2"] by simp
    from b that have 3: "queue_size (queues d ! (2 * p + 3)) = 8"
      using size [of "2 * p + 3"] by simp
    have 4: "port_of_queue (2 * p + 3) = p" by (simp add: port_of_queue_def)
    show ?thesis unfolding tx unfolding rx using 1 2 3 4 by blast
  qed
  from len low port show ?thesis by simp
qed

theorem queue_capacities_witness:
  "ports (new_VirtioConsole \<lparr>opt_rows = None, opt_cols = None, opt_ports = None,
          opt_consolePortEnable = None\<rparr> False) = 4 \<and>
   length (queues (new_VirtioConsole \<lparr>opt_rows = None, opt_cols = None, opt_ports = None,
          opt_consolePortEnable = None\<rparr> False)) = 10 \<and>
   queue_size (queues (new_VirtioConsole \<lparr>opt_rows = None, opt_cols = None, opt_ports = None,
          opt_consolePortEnable = None\<rparr> False) ! 0) = 16 \<and>
   queue_size (queues (new_VirtioConsole \<lparr>opt_rows = None, opt_cols = None, opt_ports = None,
          opt_consolePortEnable = None\<rparr> False) ! 6) = 16 \<and>
   queue_size (queues (new_VirtioConsole \<lparr>opt_rows = None, opt_cols = None, opt_ports = None,
          opt_consolePortEnable = None\<rparr> False) ! 7) = 8 \<and>
   int (queue_size (queues (new_VirtioConsole \<lparr>opt_rows = None, opt_cols = None, opt_ports = None,
          opt_consolePortEnable = None\<rparr> False) ! 6)) - 2 = 14"
proof -
  define d where "d = new_VirtioConsole \<lparr>opt_rows = None, opt_cols = None, opt_ports = None,
          opt_consolePortEnable = None\<rparr> False"
  note t = queue_capacities [OF d_def]
  have p: "ports d = 4" by (simp add: d_def new_VirtioConsole_def)
  have i: "input_queue_index 2 = 6" by (simp add: input_queue_index_def)
  from t p have "length (queues d) = 10" by simp
  moreover from t have "queue_size (queues d ! 0) = 16" by simp
  moreover from t have "1 \<le> (2::nat) \<and> 2 < ports d \<longrightarrow>
      queue_size (queues d ! input_queue_index 2) = 16 \<and>
      queue_size (queues d ! (input_queue_index 2 + 1)) = 8 \<and>
      int (queue_size (queues d ! input_queue_index 2)) - 2 = 14"
    by blast
  then have "queue_size (queues d ! 6) = 16 \<and> queue_size (queues d ! 7) = 8 \<and>
      int (queue_size (queues d ! 6)) - 2 = 14"
    by (simp add: p i)
  ultimately show ?thesis using p unfolding d_def by simp
qed


subsection \<open>Marshalling into a fresh buffer\<close>

lemma length_le_bytes: "length (le_bytes n v) = n"
  by (induction n arbitrary: v) simp_all

lemma length_write_bytes: "length (write_bytes buf off xs) = length buf"
  by (induction xs arbitrary: buf off) simp_all

lemma write_bytes_eq:
  "off + length xs \<le> length buf \<Longrightarrow>
     write_bytes buf off xs = take off buf @ xs @ drop (off + length xs) buf"
proof (induction xs arbitrary: buf off)
  case Nil
  then show ?case by simp
next
  case (Cons x xs)
  then have "off < length buf" by simp
  then have "take (Suc off) (buf[off := x]) = take off buf @ [x]"
    by (simp add: take_Suc_conv_app_nth)
  with Cons show ?case by simp
qed

lemma Marshall_fresh:
  "length (Marshall_bytes ts vs) \<le> n \<Longrightarrow>
     Marshall ts vs (replicate n 0) 0 =
       Marshall_bytes ts vs @ replicate (n - length (Marshall_bytes ts vs)) 0"
  by (simp add: Marshall_def write_bytes_eq)

lemma length_header: "length (Marshall_bytes [''w'', ''h'', ''h''] [p, e, v]) = 8"
  by (simp add: length_le_bytes field_width_def)

lemma length_resize: "length (Marshall_bytes [''w'', ''h'', ''h'', ''h'', ''h''] [p, e, v, r, c]) = 12"
  by (simp add: length_le_bytes field_width_def)

lemma take_Suc_update: "k < length xs \<Longrightarrow> take (Suc k) (xs[k := x]) = take k xs @ [x]"
  by (simp add: take_Suc_conv_app_nth)

lemma copy_name_eq:
  "i \<le> length namex \<Longrightarrow> 8 + length namex \<le> length buf \<Longrightarrow>
     copy_name buf namex i = take (8 + i) buf @ drop i namex @ drop (8 + length namex) buf"
proof (induction buf namex i rule: copy_name.induct)
  case (1 buf namex i)
  show ?case
  proof (cases "i < length namex")
    case False
    then have "copy_name buf namex i = buf"
      by (subst copy_name.simps) simp
    with False "1.prems" show ?thesis by simp
  next
    case True
    with "1.prems" have lt: "i + 8 < length buf" by simp
    have "copy_name buf namex i = copy_name (buf[i + 8 := namex ! i]) namex (Suc i)"
      using True by (simp add: copy_name.simps [of buf namex i])
    also have "\<dots> = take (8 + Suc i) (buf[i + 8 := namex ! i]) @ drop (Suc i) namex @
        drop (8 + length namex) (buf[i + 8 := namex ! i])"
      using True "1.prems" by (intro "1.IH") simp_all
    also have "take (8 + Suc i) (buf[i + 8 := namex ! i]) = take (8 + i) buf @ [namex ! i]"
      by (simp only: add_Suc_right add.commute [of 8 i] take_Suc_update [OF lt])
    also have "drop (8 + length namex) (buf[i + 8 := namex ! i]) = drop (8 + length namex) buf"
      using True by simp
    finally show ?thesis using True by (simp add: Cons_nth_drop_Suc)
  qed
qed

lemma name_buffer:
  fixes namex :: blob
  assumes "length hdr = 8"
  shows "(copy_name (hdr @ replicate (length namex + 1) 0) namex 0)[8 + length namex := 0] =
           hdr @ namex @ [0]"
proof -
  have r: "replicate (length namex + 1) (0::byte) = replicate (length namex) 0 @ [0]"
    by (simp add: replicate_append_same)
  have "copy_name (hdr @ replicate (length namex + 1) 0) namex 0 = hdr @ namex @ [0]"
    unfolding r using assms by (simp add: copy_name_eq)
  then show ?thesis
    using assms by (simp add: list_update_append)
qed


subsection \<open>What one operation does to the queues\<close>

lemma bind_result_simps:
  "bind_result (Inl e) f = Inl e" "bind_result (Inr x) f = f x"
  by (simp_all add: bind_result_def)

lemma the_queue_eq: "i < length (queues s) \<Longrightarrow> the_queue s i = Inr (queues s ! i)"
  by (simp add: the_queue_def)

lemma put_queue_simps:
  "rows (put_queue s i q) = rows s" "cols (put_queue s i q) = cols s"
  "ports (put_queue s i q) = ports s" "consolePortEnable (put_queue s i q) = consolePortEnable s"
  "bus_sent (put_queue s i q) = bus_sent s" "DEBUG (put_queue s i q) = DEBUG s"
  "length (queues (put_queue s i q)) = length (queues s)"
  by (simp_all add: put_queue_def)

lemma nth_put_queue:
  "i < length (queues s) \<Longrightarrow> queues (put_queue s i q) ! j = (if j = i then q else queues s ! j)"
  by (simp add: put_queue_def nth_list_update)

lemma put_queue_twice: "put_queue (put_queue s i a) i b = put_queue s i b"
  by (simp add: put_queue_def)

lemma Send_eq:
  "q < length (queues s) \<Longrightarrow>
     Send s q b d = Inr (put_queue s q (flush_replies (push_reply (queues s ! q) (set_next_blob b d))))"
  by (simp add: Send_def on_queue_def the_queue_eq bind_result_simps put_queue_simps
      nth_put_queue put_queue_twice)

lemma Ack_eq:
  "q < length (queues s) \<Longrightarrow>
     Ack s q b = Inr (put_queue s q (flush_replies (push_reply (queues s ! q) (set_next_blob b []))))"
  by (simp add: Ack_def on_queue_def the_queue_eq bind_result_simps put_queue_simps
      nth_put_queue put_queue_twice)

lemma pop_from_eq:
  "q < length (queues s) \<Longrightarrow> pending (queues s ! q) = b # bs \<Longrightarrow>
     pop_from s q = Inr (b\<lparr>written := []\<rparr>, put_queue s q ((queues s ! q)\<lparr>pending := bs\<rparr>))"
  by (simp add: pop_from_def the_queue_eq pop_request_def)

lemma pop_from_empty:
  "q < length (queues s) \<Longrightarrow> pending (queues s ! q) = [] \<Longrightarrow> pop_from s q = Inl PopEmpty"
  by (simp add: pop_from_def the_queue_eq pop_request_def)

text \<open>
  A message sent on a queue takes the oldest pending chain, writes the message into it
  and pushes it back: \<open>answered q msgs\<close> is the queue after that was done for each of
  \<open>msgs\<close> in turn.
\<close>

definition answered :: "virtqueue \<Rightarrow> blob list \<Rightarrow> virtqueue" where
  "answered q msgs =
     q\<lparr>pending := drop (length msgs) (pending q),
       replies := replies q @ map (\<lambda>(b, m). b\<lparr>written := m\<rparr>) (zip (pending q) msgs),
       flushed := (if msgs = [] then flushed q else length (replies q) + length msgs)\<rparr>"

lemma answered_Nil: "answered q [] = q"
  by (simp add: answered_def)

lemma zip_snoc:
  "length xs < length ps \<Longrightarrow> zip ps (xs @ [y]) = zip ps xs @ [(ps ! length xs, y)]"
proof (induction xs arbitrary: ps)
  case Nil
  then show ?case by (cases ps) simp_all
next
  case (Cons x xs)
  then show ?case by (cases ps) simp_all
qed

lemma answered_append:
  assumes "length xs < length (pending q)"
  shows "answered (answered q xs) [y] = answered q (xs @ [y])"
proof -
  from assms have "drop (length xs) (pending q) =
      pending q ! length xs # drop (Suc (length xs)) (pending q)"
    by (simp add: Cons_nth_drop_Suc)
  with assms show ?thesis
    by (simp add: answered_def zip_snoc)
qed

lemma send_on_queue:
  assumes "q < length (queues s)" "pending (queues s ! q) \<noteq> []"
  shows "bind_result (pop_from s q) (\<lambda>(bufchain, s1). Send s1 q bufchain d) =
           Inr (put_queue s q (answered (queues s ! q) [d]))"
proof -
  from assms(2) obtain b bs where p: "pending (queues s ! q) = b # bs"
    by (cases "pending (queues s ! q)") auto
  show ?thesis
    using assms(1) p
    by (simp add: pop_from_eq bind_result_simps Send_eq put_queue_simps nth_put_queue
        put_queue_twice answered_def push_reply_def flush_replies_def set_next_blob_def)
qed

lemma send_on_empty:
  assumes "q < length (queues s)" "pending (queues s ! q) = []"
  shows "bind_result (pop_from s q) f = Inl PopEmpty"
  using assms by (simp add: pop_from_empty bind_result_simps)


lemma zip_take_length: "zip (take (length ys) xs) ys = zip xs ys"
proof (induction ys arbitrary: xs)
  case Nil
  then show ?case by simp
next
  case (Cons y ys)
  then show ?case by (cases xs) simp_all
qed

lemma answered_answered:
  assumes "length xs \<le> length (pending q)"
  shows "answered (answered q xs) ys = answered q (xs @ ys)"
proof -
  have z: "zip (pending q) (xs @ ys) =
      zip (pending q) xs @ zip (drop (length xs) (pending q)) ys"
    by (simp add: zip_append2 zip_take_length)
  have l: "length (zip (pending q) xs) = length xs"
    using assms by simp
  show ?thesis
    using assms by (simp add: answered_def z l add.commute min_absorb2)
qed

subsection \<open>The control messages on the wire (spec section 6.4)\<close>

definition event_message :: "nat \<Rightarrow> nat \<Rightarrow> nat \<Rightarrow> blob" where
  "event_message port event val = Marshall_bytes [''w'', ''h'', ''h''] [port, event, val]"

definition name_message :: "nat \<Rightarrow> string \<Rightarrow> blob" where
  "name_message port name =
     event_message port VIRTIO_CONSOLE_PORT_NAME 1 @ TextEncoder_encode name @ [0]"

definition resize_message :: "nat \<Rightarrow> nat \<Rightarrow> nat \<Rightarrow> blob" where
  "resize_message port r c =
     Marshall_bytes [''w'', ''h'', ''h'', ''h'', ''h''] [port, VIRTIO_CONSOLE_RESIZE, 0, r, c]"

lemma length_event_message: "length (event_message p e v) = 8"
  by (simp only: event_message_def length_header)

lemma length_resize_message: "length (resize_message p r c) = 12"
  by (simp only: resize_message_def length_resize)

lemma Marshall_event:
  "Marshall [''w'', ''h'', ''h''] [p, e, v] (replicate (8 + k) 0) 0 =
     event_message p e v @ replicate k 0"
proof -
  have "Marshall [''w'', ''h'', ''h''] [p, e, v] (replicate (8 + k) 0) 0 =
      write_bytes (replicate (8 + k) 0) 0 (event_message p e v)"
    by (simp only: Marshall_def event_message_def)
  then show ?thesis
    by (simp add: write_bytes_eq length_event_message)
qed

lemma Marshall_resize:
  "Marshall [''w'', ''h'', ''h'', ''h'', ''h''] [p, VIRTIO_CONSOLE_RESIZE, 0, r, c]
     (replicate 12 0) 0 = resize_message p r c"
proof -
  have "Marshall [''w'', ''h'', ''h'', ''h'', ''h''] [p, VIRTIO_CONSOLE_RESIZE, 0, r, c]
      (replicate 12 0) 0 = write_bytes (replicate 12 0) 0 (resize_message p r c)"
    by (simp only: Marshall_def resize_message_def)
  then show ?thesis
    by (simp add: write_bytes_eq length_resize_message)
qed

lemma SendEvent_eq:
  assumes "2 < length (queues s)" "pending (queues s ! 2) \<noteq> []"
  shows "SendEvent s p e v = Inr (put_queue s 2 (answered (queues s ! 2) [event_message p e v]))"
proof -
  have "Marshall [''w'', ''h'', ''h''] [p, e, v] (replicate 8 0) 0 = event_message p e v"
    using Marshall_event [of p e v 0] by simp
  then show ?thesis
    using send_on_queue [OF assms] by (simp add: SendEvent_def Let_def)
qed

lemma SendEvent_empty:
  "2 < length (queues s) \<Longrightarrow> pending (queues s ! 2) = [] \<Longrightarrow> SendEvent s p e v = Inl PopEmpty"
  unfolding SendEvent_def by (rule send_on_empty)

lemma SendWindowSize_eq:
  assumes "2 < length (queues s)" "pending (queues s ! 2) \<noteq> []"
  shows "SendWindowSize s p =
     Inr (put_queue s 2 (answered (queues s ! 2) [resize_message p (rows s) (cols s)]))"
proof -
  from assms(2) obtain b bs where pd: "pending (queues s ! 2) = b # bs"
    by (cases "pending (queues s ! 2)") auto
  have "SendWindowSize s p =
      bind_result (pop_from s 2)
        (\<lambda>(bufchain, s1). Send s1 2 bufchain (resize_message p (rows s) (cols s)))"
    using assms(1) pd
    by (simp add: SendWindowSize_def Let_def pop_from_eq bind_result_simps put_queue_simps
        Marshall_resize)
  with send_on_queue [OF assms] show ?thesis by simp
qed

lemma SendWindowSize_empty:
  "2 < length (queues s) \<Longrightarrow> pending (queues s ! 2) = [] \<Longrightarrow> SendWindowSize s p = Inl PopEmpty"
  unfolding SendWindowSize_def by (rule send_on_empty)

lemma SendName_eq:
  assumes "2 < length (queues s)" "pending (queues s ! 2) \<noteq> []"
  shows "SendName s p name = Inr (put_queue s 2 (answered (queues s ! 2) [name_message p name]))"
proof -
  let ?namex = "TextEncoder_encode name"
  have "Marshall [''w'', ''h'', ''h''] [p, VIRTIO_CONSOLE_PORT_NAME, 1]
          (replicate (8 + length ?namex + 1) 0) 0 =
        event_message p VIRTIO_CONSOLE_PORT_NAME 1 @ replicate (length ?namex + 1) 0"
    using Marshall_event [of p VIRTIO_CONSOLE_PORT_NAME 1 "length ?namex + 1"]
    by (simp only: add.assoc)
  then have "(copy_name (Marshall [''w'', ''h'', ''h''] [p, VIRTIO_CONSOLE_PORT_NAME, 1]
          (replicate (8 + length ?namex + 1) 0) 0) ?namex 0)[8 + length ?namex := 0] =
        name_message p name"
    using name_buffer [OF length_event_message, of p VIRTIO_CONSOLE_PORT_NAME 1 ?namex]
    by (simp only: name_message_def)
  then show ?thesis
    using send_on_queue [OF assms] by (simp add: SendName_def Let_def)
qed

lemma SendName_empty:
  "2 < length (queues s) \<Longrightarrow> pending (queues s ! 2) = [] \<Longrightarrow> SendName s p n = Inl PopEmpty"
  unfolding SendName_def by (rule send_on_empty)


subsection \<open>The loop of the \<^verbatim>\<open>DEVICE_READY\<close> case\<close>

lemma send_device_adds_eq:
  "2 < length (queues s) \<Longrightarrow> ports s - i \<le> length (pending (queues s ! 2)) \<Longrightarrow>
     send_device_adds s i =
       Inr (put_queue s 2 (answered (queues s ! 2)
              (map (\<lambda>k. event_message k VIRTIO_CONSOLE_DEVICE_ADD 0) [i..<ports s])))"
proof (induction s i rule: send_device_adds.induct)
  case (1 s i)
  let ?q = "queues s ! 2"
  let ?m = "\<lambda>k. event_message k VIRTIO_CONSOLE_DEVICE_ADD 0"
  show ?case
  proof (cases "i < ports s")
    case False
    then have "send_device_adds s i = Inr s"
      by (subst send_device_adds.simps) simp
    moreover have "put_queue s 2 ?q = s"
      by (simp add: put_queue_def)
    ultimately show ?thesis using False by (simp add: answered_Nil)
  next
    case True
    with "1.prems" have ne: "pending ?q \<noteq> []" by auto
    define s1 where "s1 = put_queue s 2 (answered ?q [?m i])"
    have ev: "SendEvent s i VIRTIO_CONSOLE_DEVICE_ADD 0 = Inr s1"
      unfolding s1_def using "1.prems"(1) ne by (rule SendEvent_eq)
    have q1: "queues s1 ! 2 = answered ?q [?m i]" and l1: "2 < length (queues s1)"
      and p1: "ports s1 = ports s"
      using "1.prems"(1) by (simp_all add: s1_def nth_put_queue put_queue_simps)
    have "ports s1 - Suc i \<le> length (pending (queues s1 ! 2))"
      using "1.prems"(2) True by (simp add: q1 p1 answered_def)
    with "1.IH" [OF True ev l1]
    have "send_device_adds s1 (Suc i) =
        Inr (put_queue s1 2 (answered (queues s1 ! 2) (map ?m [Suc i..<ports s1])))"
      by simp
    also have "put_queue s1 2 (answered (queues s1 ! 2) (map ?m [Suc i..<ports s1])) =
        put_queue s1 2 (answered (answered ?q [?m i]) (map ?m [Suc i..<ports s]))"
      by (simp only: q1 p1)
    also have "answered (answered ?q [?m i]) (map ?m [Suc i..<ports s]) =
        answered ?q ([?m i] @ map ?m [Suc i..<ports s])"
      using ne by (intro answered_answered) (simp add: Suc_leI)
    also have "put_queue s1 2 (answered ?q ([?m i] @ map ?m [Suc i..<ports s])) =
        put_queue s 2 (answered ?q ([?m i] @ map ?m [Suc i..<ports s]))"
      by (simp only: s1_def put_queue_twice)
    also have "[?m i] @ map ?m [Suc i..<ports s] = map ?m [i..<ports s]"
      using True by (simp add: upt_conv_Cons)
    finally have "send_device_adds s1 (Suc i) =
        Inr (put_queue s 2 (answered ?q (map ?m [i..<ports s])))" .
    moreover have "send_device_adds s i = send_device_adds s1 (Suc i)"
      using True ev by (subst send_device_adds.simps) simp
    ultimately show ?thesis by simp
  qed
qed

subsection \<open>The loop of the control-transmit handler\<close>

lemma handler3_done:
  "3 < length (queues s) \<Longrightarrow> pending (queues s ! 3) = [] \<Longrightarrow> handler3 s 3 = Inr s"
  unfolding handler3_def
  by (subst handler3_loop.simps) (simp add: the_queue_eq has_request_def)

lemma handler3_step:
  assumes "3 < length (queues s)" "pending (queues s ! 3) = m # ms"
  shows "handler3 s 3 =
     (case control_message (put_queue s 3 ((queues s ! 3)\<lparr>pending := ms\<rparr>)) 3 (m\<lparr>written := []\<rparr>) of
        Inl e \<Rightarrow> Inl e
      | Inr (s2, Return) \<Rightarrow> Inr s2
      | Inr (s2, Break) \<Rightarrow> handler3 s2 3)"
  unfolding handler3_def using assms
  by (subst handler3_loop.simps)
     (simp add: the_queue_eq has_request_def pop_from_eq split: sum.splits flow.splits)

lemma handler3_single:
  assumes "3 < length (queues s)" "pending (queues s ! 3) = [m]"
    and "control_message (put_queue s 3 ((queues s ! 3)\<lparr>pending := []\<rparr>)) 3 (m\<lparr>written := []\<rparr>)
           = Inr (s2, f)"
  shows "handler3 s 3 = Inr s2"
proof (cases f)
  case Return
  with handler3_step [OF assms(1,2)] assms(3) show ?thesis by simp
next
  case Break
  from control_message_shrinks [OF assms(3)] assms(1)
  have "3 < length (queues s2)" "pending (queues s2 ! 3) = []"
    by (auto simp: shrinks_def put_queue_simps nth_put_queue dest: spec [of _ 3])
  then have "handler3 s2 3 = Inr s2" by (rule handler3_done)
  with handler3_step [OF assms(1,2)] assms(3) Break show ?thesis by simp
qed


subsection \<open>Messages sent one after another on queue 2\<close>

lemma put_queue_same: "put_queue s i (queues s ! i) = s"
  by (simp add: put_queue_def)

lemma port_is_console_put_queue [simp]:
  "port_is_console (put_queue s i q) p = port_is_console s p"
  by (simp add: port_is_console_def put_queue_simps)

lemma SendEvent_answered:
  assumes "2 < length (queues s)" "length xs < length (pending Q)"
  shows "SendEvent (put_queue s 2 (answered Q xs)) p e v =
           Inr (put_queue s 2 (answered Q (xs @ [event_message p e v])))"
proof -
  let ?t = "put_queue s 2 (answered Q xs)"
  have q: "queues ?t ! 2 = answered Q xs" and l: "2 < length (queues ?t)"
    using assms(1) by (simp_all add: nth_put_queue put_queue_simps)
  have ne: "pending (queues ?t ! 2) \<noteq> []"
    unfolding q using assms(2) by (simp add: answered_def)
  have "SendEvent ?t p e v = Inr (put_queue ?t 2 (answered (queues ?t ! 2) [event_message p e v]))"
    using l ne by (rule SendEvent_eq)
  also have "put_queue ?t 2 (answered (queues ?t ! 2) [event_message p e v]) =
      put_queue s 2 (answered (answered Q xs) [event_message p e v])"
    by (simp only: q put_queue_twice)
  also have "answered (answered Q xs) [event_message p e v] = answered Q (xs @ [event_message p e v])"
    using assms(2) by (intro answered_answered) simp
  finally show ?thesis .
qed

lemma SendName_answered:
  assumes "2 < length (queues s)" "length xs < length (pending Q)"
  shows "SendName (put_queue s 2 (answered Q xs)) p n =
           Inr (put_queue s 2 (answered Q (xs @ [name_message p n])))"
proof -
  let ?t = "put_queue s 2 (answered Q xs)"
  have q: "queues ?t ! 2 = answered Q xs" and l: "2 < length (queues ?t)"
    using assms(1) by (simp_all add: nth_put_queue put_queue_simps)
  have ne: "pending (queues ?t ! 2) \<noteq> []"
    unfolding q using assms(2) by (simp add: answered_def)
  have "SendName ?t p n = Inr (put_queue ?t 2 (answered (queues ?t ! 2) [name_message p n]))"
    using l ne by (rule SendName_eq)
  also have "put_queue ?t 2 (answered (queues ?t ! 2) [name_message p n]) =
      put_queue s 2 (answered (answered Q xs) [name_message p n])"
    by (simp only: q put_queue_twice)
  also have "answered (answered Q xs) [name_message p n] = answered Q (xs @ [name_message p n])"
    using assms(2) by (intro answered_answered) simp
  finally show ?thesis .
qed

subsection \<open>One control message\<close>

definition message_of :: "bufchain \<Rightarrow> nat list option" where
  "message_of b = Unmarshall [''w'', ''h'', ''h''] (readable b) 0"

lemma get_next_blob_all: "get_next_blob b (length_readable b) = readable b"
  by (simp add: get_next_blob_def length_readable_def)

lemma set_next_blob_Nil: "set_next_blob b [] = b"
  by (simp add: set_next_blob_def)

lemma Ack_eq':
  "q < length (queues s) \<Longrightarrow>
     Ack s q b = Inr (put_queue s q (flush_replies (push_reply (queues s ! q) b)))"
  by (simp add: Ack_eq set_next_blob_Nil)

definition port_ready_messages :: "VirtioConsole \<Rightarrow> nat \<Rightarrow> blob list" where
  "port_ready_messages s p =
     (if port_is_console s p then [event_message p VIRTIO_CONSOLE_CONSOLE_PORT 1] else []) @
     [name_message p (''virtio-'' @ String_of_nat p),
      event_message p VIRTIO_CONSOLE_PORT_OPEN 1]"

lemma port_ready_eq:
  assumes "3 < length (queues s)"
    and "length (port_ready_messages s p) \<le> length (pending (queues s ! 2))"
  shows "port_ready s 3 b p =
     Inr (put_queue (put_queue s 3 (flush_replies (push_reply (queues s ! 3) b))) 2
            (answered (queues s ! 2) (port_ready_messages s p)))"
proof -
  let ?Q = "queues s ! 2"
  define s1 where "s1 = put_queue s 3 (flush_replies (push_reply (queues s ! 3) b))"
  have ack: "Ack s 3 b = Inr s1"
    using assms(1) by (simp add: Ack_eq' s1_def)
  have l: "2 < length (queues s1)" and q: "queues s1 ! 2 = ?Q"
    using assms(1) by (simp_all add: s1_def put_queue_simps nth_put_queue)
  have c: "port_is_console s1 p = port_is_console s p"
    by (simp add: s1_def)
  have ne: "pending (queues s1 ! 2) \<noteq> []"
    using assms(2) by (auto simp: q port_ready_messages_def)
  let ?name = "name_message p (''virtio-'' @ String_of_nat p)"
  let ?open = "event_message p VIRTIO_CONSOLE_PORT_OPEN 1"
  let ?cons = "event_message p VIRTIO_CONSOLE_CONSOLE_PORT 1"
  show ?thesis
  proof (cases "port_is_console s p")
    case True
    with assms(2) have n: "3 \<le> length (pending ?Q)"
      by (simp add: port_ready_messages_def)
    have 1: "SendEvent s1 p VIRTIO_CONSOLE_CONSOLE_PORT 1 = Inr (put_queue s1 2 (answered ?Q [?cons]))"
      using SendEvent_eq [OF l ne, of p VIRTIO_CONSOLE_CONSOLE_PORT 1] by (simp only: q)
    have 2: "SendName (put_queue s1 2 (answered ?Q [?cons])) p (''virtio-'' @ String_of_nat p) =
        Inr (put_queue s1 2 (answered ?Q [?cons, ?name]))"
      using SendName_answered [OF l, of "[?cons]" ?Q p] n by simp
    have 3: "SendEvent (put_queue s1 2 (answered ?Q [?cons, ?name])) p VIRTIO_CONSOLE_PORT_OPEN 1 =
        Inr (put_queue s1 2 (answered ?Q [?cons, ?name, ?open]))"
      using SendEvent_answered [OF l, of "[?cons, ?name]" ?Q p VIRTIO_CONSOLE_PORT_OPEN 1] n by simp
    from True ack c 1 2 3 show ?thesis
      by (simp add: port_ready_def bind_result_simps port_ready_messages_def s1_def)
  next
    case False
    with assms(2) have n: "2 \<le> length (pending ?Q)"
      by (simp add: port_ready_messages_def)
    have 2: "SendName s1 p (''virtio-'' @ String_of_nat p) =
        Inr (put_queue s1 2 (answered ?Q [?name]))"
      using SendName_eq [OF l ne, of p] by (simp only: q)
    have 3: "SendEvent (put_queue s1 2 (answered ?Q [?name])) p VIRTIO_CONSOLE_PORT_OPEN 1 =
        Inr (put_queue s1 2 (answered ?Q [?name, ?open]))"
      using SendEvent_answered [OF l, of "[?name]" ?Q p VIRTIO_CONSOLE_PORT_OPEN 1] n by simp
    from False ack c 2 3 show ?thesis
      by (simp add: port_ready_def bind_result_simps port_ready_messages_def s1_def)
  qed
qed

lemma port_open_eq:
  assumes "3 < length (queues s)"
  shows "p \<noteq> 0 \<Longrightarrow>
           port_open s 3 b p = Inr (put_queue s 3 (flush_replies (push_reply (queues s ! 3) b)))"
    and "p = 0 \<Longrightarrow> pending (queues s ! 2) \<noteq> [] \<Longrightarrow>
           port_open s 3 b p =
             Inr (put_queue (put_queue s 3 (flush_replies (push_reply (queues s ! 3) b))) 2
                    (answered (queues s ! 2) [resize_message 0 (rows s) (cols s)]))"
    and "p = 0 \<Longrightarrow> pending (queues s ! 2) = [] \<Longrightarrow> port_open s 3 b p = Inl PopEmpty"
  using assms
  by (simp_all add: port_open_def Ack_eq' bind_result_simps SendWindowSize_eq SendWindowSize_empty
      put_queue_simps nth_put_queue)


lemma control_message_dispatch:
  assumes "3 < length (queues s)" "message_of b = Some [p, e, v]"
  shows "control_message s 3 b =
     (let s1 = put_queue s 3 (flush_replies (push_reply (queues s ! 3) b))
      in if e = VIRTIO_CONSOLE_DEVICE_READY then
           bind_result (send_device_adds s1 0) (\<lambda>s2. Inr (s2, Break))
         else if e = VIRTIO_CONSOLE_PORT_READY then
           bind_result (port_ready s1 3 b p) (\<lambda>s2. Inr (s2, Break))
         else if e = VIRTIO_CONSOLE_PORT_OPEN then
           bind_result (port_open s1 3 b p) (\<lambda>s2. Inr (s2, Break))
         else unknown_event s1)"
proof -
  have "Unmarshall [''w'', ''h'', ''h''] (get_next_blob b (length_readable b)) 0 = Some [p, e, v]"
    using assms(2) by (simp only: get_next_blob_all message_of_def)
  then show ?thesis
    using assms(1) by (simp add: control_message_def Ack_eq' bind_result_simps Let_def)
qed

lemma control_message_unknown:
  assumes "3 < length (queues s)" "message_of b = Some [p, e, v]"
    and "e \<noteq> VIRTIO_CONSOLE_DEVICE_READY" "e \<noteq> VIRTIO_CONSOLE_PORT_READY"
    and "e \<noteq> VIRTIO_CONSOLE_PORT_OPEN"
  shows "control_message s 3 b =
     (if DEBUG s then Inl AssertFailed
      else Inr (put_queue s 3 (flush_replies (push_reply (queues s ! 3) b)), Return))"
  using assms(3-5)
  by (simp add: control_message_dispatch [OF assms(1,2)] unknown_event_def dbg_assert_def
      put_queue_simps)

lemma control_message_device_ready:
  assumes "3 < length (queues s)" "message_of b = Some [p, VIRTIO_CONSOLE_DEVICE_READY, v]"
    and "ports s \<le> length (pending (queues s ! 2))"
  shows "control_message s 3 b =
     Inr (put_queue (put_queue s 3 (flush_replies (push_reply (queues s ! 3) b))) 2
            (answered (queues s ! 2)
               (map (\<lambda>k. event_message k VIRTIO_CONSOLE_DEVICE_ADD 0) [0..<ports s])),
          Break)"
proof -
  define s1 where "s1 = put_queue s 3 (flush_replies (push_reply (queues s ! 3) b))"
  have l: "2 < length (queues s1)" and q: "queues s1 ! 2 = queues s ! 2"
    and p: "ports s1 = ports s"
    using assms(1) by (simp_all add: s1_def put_queue_simps nth_put_queue)
  have "ports s1 - 0 \<le> length (pending (queues s1 ! 2))"
    using assms(3) by (simp add: q p)
  from send_device_adds_eq [OF l this]
  have "send_device_adds s1 0 =
      Inr (put_queue s1 2 (answered (queues s ! 2)
             (map (\<lambda>k. event_message k VIRTIO_CONSOLE_DEVICE_ADD 0) [0..<ports s])))"
    by (simp only: q p)
  then show ?thesis
    by (simp add: control_message_dispatch [OF assms(1,2)] bind_result_simps flip: s1_def)
qed

lemma control_message_port_ready:
  assumes "3 < length (queues s)" "message_of b = Some [p, VIRTIO_CONSOLE_PORT_READY, v]"
    and "length (port_ready_messages s p) \<le> length (pending (queues s ! 2))"
  shows "control_message s 3 b =
     Inr (put_queue
            (put_queue s 3
               (flush_replies (push_reply (flush_replies (push_reply (queues s ! 3) b)) b))) 2
            (answered (queues s ! 2) (port_ready_messages s p)),
          Break)"
proof -
  define s1 where "s1 = put_queue s 3 (flush_replies (push_reply (queues s ! 3) b))"
  have l: "3 < length (queues s1)" and q: "queues s1 ! 2 = queues s ! 2"
    and q3: "queues s1 ! 3 = flush_replies (push_reply (queues s ! 3) b)"
    and m: "port_ready_messages s1 p = port_ready_messages s p"
    using assms(1) by (simp_all add: s1_def put_queue_simps nth_put_queue port_ready_messages_def)
  have "length (port_ready_messages s1 p) \<le> length (pending (queues s1 ! 2))"
    using assms(3) by (simp only: q m)
  from port_ready_eq [OF l this, of b]
  have "port_ready s1 3 b p =
      Inr (put_queue (put_queue s 3
             (flush_replies (push_reply (flush_replies (push_reply (queues s ! 3) b)) b))) 2
             (answered (queues s ! 2) (port_ready_messages s p)))"
    by (simp add: q q3 m) (simp add: s1_def put_queue_twice)
  then show ?thesis
    by (simp add: control_message_dispatch [OF assms(1,2)] bind_result_simps event_codes
        flip: s1_def)
qed

lemma control_message_port_open:
  assumes "3 < length (queues s)" "message_of b = Some [p, VIRTIO_CONSOLE_PORT_OPEN, v]"
  shows "p \<noteq> 0 \<Longrightarrow>
           control_message s 3 b =
             Inr (put_queue s 3
                    (flush_replies (push_reply (flush_replies (push_reply (queues s ! 3) b)) b)),
                  Break)"
    and "p = 0 \<Longrightarrow> pending (queues s ! 2) \<noteq> [] \<Longrightarrow>
           control_message s 3 b =
             Inr (put_queue
                    (put_queue s 3
                       (flush_replies (push_reply (flush_replies (push_reply (queues s ! 3) b)) b))) 2
                    (answered (queues s ! 2) [resize_message 0 (rows s) (cols s)]),
                  Break)"
proof -
  define s1 where "s1 = put_queue s 3 (flush_replies (push_reply (queues s ! 3) b))"
  have l: "3 < length (queues s1)" and q: "queues s1 ! 2 = queues s ! 2"
    and q3: "queues s1 ! 3 = flush_replies (push_reply (queues s ! 3) b)"
    and r: "rows s1 = rows s" "cols s1 = cols s"
    using assms(1) by (simp_all add: s1_def put_queue_simps nth_put_queue)
  have d: "control_message s 3 b = bind_result (port_open s1 3 b p) (\<lambda>s2. Inr (s2, Break))"
    by (simp add: control_message_dispatch [OF assms(1,2)] event_codes flip: s1_def)
  show "control_message s 3 b =
      Inr (put_queue s 3
             (flush_replies (push_reply (flush_replies (push_reply (queues s ! 3) b)) b)), Break)"
    if "p \<noteq> 0"
    using port_open_eq(1) [OF l that, of b]
    by (simp add: d q3 bind_result_simps) (simp add: s1_def put_queue_twice)
  show "control_message s 3 b =
      Inr (put_queue
             (put_queue s 3
                (flush_replies (push_reply (flush_replies (push_reply (queues s ! 3) b)) b))) 2
             (answered (queues s ! 2) [resize_message 0 (rows s) (cols s)]), Break)"
    if "p = 0" "pending (queues s ! 2) \<noteq> []"
  proof -
    from that(2) have "pending (queues s1 ! 2) \<noteq> []" by (simp add: q)
    from port_open_eq(2) [OF l that(1) this, of b] show ?thesis
      by (simp add: d q q3 r bind_result_simps) (simp add: s1_def put_queue_twice)
  qed
qed


subsection \<open>A device with two ports, and what the guest driver does to it\<close>

text \<open>
  The guest side is not part of the device: \<open>guest_post\<close> is the driver configuring a
  queue and posting chains on it. \<open>two_ports\<close> is the device the constructor builds for
  30 rows, 100 columns and two ports.
\<close>

definition guest_post :: "VirtioConsole \<Rightarrow> nat \<Rightarrow> bufchain list \<Rightarrow> VirtioConsole" where
  "guest_post s i bs =
     put_queue s i ((queues s ! i)\<lparr>configured := True, pending := pending (queues s ! i) @ bs\<rparr>)"

definition two_ports :: VirtioConsole where
  "two_ports =
     new_VirtioConsole \<lparr>opt_rows = Some 30, opt_cols = Some 100, opt_ports = Some 2,
                        opt_consolePortEnable = None\<rparr> False"

lemma two_ports_eq:
  "two_ports =
     \<lparr>rows = 30, cols = 100, ports = 2, consolePortEnable = 15,
      queues =
        [\<lparr>queue_size = 16, notify = 0, configured = False, pending = [], replies = [], flushed = 0\<rparr>,
         \<lparr>queue_size = 16, notify = 1, configured = False, pending = [], replies = [], flushed = 0\<rparr>,
         \<lparr>queue_size = 16, notify = 2, configured = False, pending = [], replies = [], flushed = 0\<rparr>,
         \<lparr>queue_size = 16, notify = 3, configured = False, pending = [], replies = [], flushed = 0\<rparr>,
         \<lparr>queue_size = 16, notify = 0, configured = False, pending = [], replies = [], flushed = 0\<rparr>,
         \<lparr>queue_size = 8, notify = 1, configured = False, pending = [], replies = [], flushed = 0\<rparr>],
      bus_sent = [], DEBUG = False\<rparr>"
  by (simp add: two_ports_def new_VirtioConsole_def declared_queues_def push_port_queues_eq
      declare_queue_def)

text \<open>
  Claim C9. When the receive queue of port \<open>p\<close> has no pending request, input bytes from
  the host for \<open>p\<close> leave the whole device as it was: nothing is pushed on any queue, and
  the listener returns normally.
\<close>

theorem input_bytes_dropped:
  assumes "input_queue_index p < length (queues s)"
    and "\<not> has_request (queues s ! input_queue_index p)"
  shows "on_input_bytes s p data = Inr s"
  using assms by (simp add: on_input_bytes_def the_queue_eq)

theorem input_bytes_dropped_witness:
  "input_queue_index 1 < length (queues two_ports) \<and>
   \<not> has_request (queues two_ports ! input_queue_index 1) \<and>
   on_input_bytes two_ports 1 [104, 105] = Inr two_ports"
proof -
  have 1: "input_queue_index 1 < length (queues two_ports)"
    by (simp add: input_queue_index_def two_ports_eq)
  have 2: "\<not> has_request (queues two_ports ! input_queue_index 1)"
    by (simp add: input_queue_index_def two_ports_eq has_request_def)
  from 1 2 input_bytes_dropped [OF 1 2, of "[104, 105]"] show ?thesis by simp
qed


subsection \<open>Decoding what was encoded\<close>

lemma le_value_le_bytes: "le_value (le_bytes n v) = v mod 256 ^ n"
proof (induction n arbitrary: v)
  case 0
  then show ?case by simp
next
  case (Suc n)
  have "unat (word_of_nat (v mod 256) :: byte) = v mod 256"
    by (simp add: unat_of_nat)
  with Suc show ?case
    by (simp add: mod_mult2_eq)
qed

lemma Unmarshall_Marshall_bytes:
  "length ts = length vs \<Longrightarrow>
     Unmarshall ts (pre @ Marshall_bytes ts vs @ rest) (length pre) =
       Some (map (\<lambda>(t, v). v mod 256 ^ field_width t) (zip ts vs))"
proof (induction ts arbitrary: vs pre)
  case Nil
  then show ?case by simp
next
  case (Cons t ts)
  then obtain v vs' where vs: "vs = v # vs'" and len: "length ts = length vs'"
    by (cases vs) auto
  let ?b = "le_bytes (field_width t) v"
  have "Unmarshall ts ((pre @ ?b) @ Marshall_bytes ts vs' @ rest) (length (pre @ ?b)) =
      Some (map (\<lambda>(t, v). v mod 256 ^ field_width t) (zip ts vs'))"
    using len by (rule Cons.IH)
  then show ?case
    by (simp add: vs length_le_bytes le_value_le_bytes)
qed

lemma decode_event_message:
  "Unmarshall [''w'', ''h'', ''h''] (event_message p e v @ rest) 0 =
     Some [p mod 2 ^ 32, e mod 2 ^ 16, v mod 2 ^ 16]"
  using Unmarshall_Marshall_bytes [of "[''w'', ''h'', ''h'']" "[p, e, v]" "[]" rest]
  by (simp add: event_message_def field_width_def)

lemma decode_resize_message:
  "Unmarshall [''w'', ''h'', ''h'', ''h'', ''h''] (resize_message p r c) 0 =
     Some [p mod 2 ^ 32, VIRTIO_CONSOLE_RESIZE, 0, r mod 2 ^ 16, c mod 2 ^ 16]"
  using Unmarshall_Marshall_bytes [of "[''w'', ''h'', ''h'', ''h'', ''h'']"
      "[p, VIRTIO_CONSOLE_RESIZE, 0, r, c]" "[]" "[]"]
  by (simp add: resize_message_def field_width_def event_codes)

lemma decode_event_small:
  assumes "p < 2 ^ 32" "e < 2 ^ 16" "v < 2 ^ 16"
  shows "Unmarshall [''w'', ''h'', ''h''] (event_message p e v) 0 = Some [p, e, v]"
proof -
  have "Unmarshall [''w'', ''h'', ''h''] (event_message p e v @ []) 0 =
      Some [p mod 2 ^ 32, e mod 2 ^ 16, v mod 2 ^ 16]"
    by (rule decode_event_message)
  then show ?thesis
    using assms by (simp only: append_Nil2 mod_less)
qed

declare Unmarshall.simps [simp del]


lemma answered_single:
  "pending q \<noteq> [] \<Longrightarrow>
     answered q [m] =
       q\<lparr>pending := tl (pending q),
         replies := replies q @ [(hd (pending q))\<lparr>written := m\<rparr>],
         flushed := Suc (length (replies q))\<rparr>"
  by (cases "pending q") (simp_all add: answered_def drop_Suc)

text \<open>
  Claim C8. A resize event from the host for port \<open>p\<close> with size \<open>(c, r)\<close> stores the
  columns and rows in the device. Queue 2 has a posted buffer when it is configured and
  has a pending request (line 241): then the oldest pending chain of queue 2 is popped,
  the \<^verbatim>\<open>Resize\<close> message for \<open>p\<close> with value 0 and the new rows and columns is written into
  it, and it is pushed and flushed. Otherwise nothing is sent, and only the columns and
  rows of the device change. The message decodes to port \<open>p\<close>, event 5, value 0, rows,
  columns.
\<close>

theorem resize_event:
  assumes "2 < length (queues s)"
  shows "on_resize s p (c, r) =
     Inr (if is_configured (queues s ! 2) \<and> has_request (queues s ! 2)
          then put_queue (s\<lparr>cols := c, rows := r\<rparr>) 2
                 ((queues s ! 2)
                    \<lparr>pending := tl (pending (queues s ! 2)),
                     replies := replies (queues s ! 2) @
                       [(hd (pending (queues s ! 2)))\<lparr>written := resize_message p r c\<rparr>],
                     flushed := Suc (length (replies (queues s ! 2)))\<rparr>)
          else s\<lparr>cols := c, rows := r\<rparr>) \<and>
     Unmarshall [''w'', ''h'', ''h'', ''h'', ''h''] (resize_message p r c) 0 =
       Some [p mod 2 ^ 32, VIRTIO_CONSOLE_RESIZE, 0, r mod 2 ^ 16, c mod 2 ^ 16]"
proof -
  let ?s2 = "s\<lparr>cols := c, rows := r\<rparr>"
  have l: "2 < length (queues ?s2)" and q: "queues ?s2 ! 2 = queues s ! 2"
    using assms by simp_all
  have "on_resize s p (c, r) =
      (if is_configured (queues s ! 2) \<and> has_request (queues s ! 2)
       then SendWindowSize ?s2 p else Inr ?s2)"
    using l by (simp add: on_resize_def Let_def the_queue_eq)
  moreover have "SendWindowSize ?s2 p =
      Inr (put_queue ?s2 2
             ((queues s ! 2)
                \<lparr>pending := tl (pending (queues s ! 2)),
                 replies := replies (queues s ! 2) @
                   [(hd (pending (queues s ! 2)))\<lparr>written := resize_message p r c\<rparr>],
                 flushed := Suc (length (replies (queues s ! 2)))\<rparr>))"
    if "has_request (queues s ! 2)"
  proof -
    from that have ne: "pending (queues ?s2 ! 2) \<noteq> []"
      by (simp add: has_request_def)
    from SendWindowSize_eq [OF l ne, of p] ne show ?thesis
      by (simp add: answered_single)
  qed
  ultimately have "on_resize s p (c, r) =
     Inr (if is_configured (queues s ! 2) \<and> has_request (queues s ! 2)
          then put_queue (s\<lparr>cols := c, rows := r\<rparr>) 2
                 ((queues s ! 2)
                    \<lparr>pending := tl (pending (queues s ! 2)),
                     replies := replies (queues s ! 2) @
                       [(hd (pending (queues s ! 2)))\<lparr>written := resize_message p r c\<rparr>],
                     flushed := Suc (length (replies (queues s ! 2)))\<rparr>)
          else s\<lparr>cols := c, rows := r\<rparr>)"
    by simp
  then show ?thesis
    using decode_resize_message [of p r c] by (rule conjI)
qed

theorem resize_event_witness:
  "2 < length (queues (guest_post two_ports 2 [\<lparr>head_idx = 7, readable = [], written = []\<rparr>])) \<and>
   on_resize (guest_post two_ports 2 [\<lparr>head_idx = 7, readable = [], written = []\<rparr>]) 0 (120, 40) =
     Inr (put_queue (two_ports\<lparr>cols := 120, rows := 40\<rparr>) 2
            \<lparr>queue_size = 16, notify = 2, configured = True, pending = [],
              replies = [\<lparr>head_idx = 7, readable = [], written = resize_message 0 40 120\<rparr>],
              flushed = 1\<rparr>) \<and>
   2 < length (queues two_ports) \<and>
   on_resize two_ports 0 (120, 40) = Inr (two_ports\<lparr>cols := 120, rows := 40\<rparr>)"
proof -
  let ?s = "guest_post two_ports 2 [\<lparr>head_idx = 7, readable = [], written = []\<rparr>]"
  have 1: "2 < length (queues ?s)"
    by (simp add: guest_post_def put_queue_simps two_ports_eq)
  have 2: "2 < length (queues two_ports)"
    by (simp add: two_ports_eq)
  from resize_event [OF 1, of 0 120 40] resize_event [OF 2, of 0 120 40] 1 2 show ?thesis
    by (simp add: guest_post_def put_queue_def two_ports_eq is_configured_def has_request_def)
qed


subsection \<open>The transmit handler\<close>

lemma handler1_loop_done:
  "q < length (queues s) \<Longrightarrow> pending (queues s ! q) = [] \<Longrightarrow> handler1_loop s q port = Inr s"
  by (subst handler1_loop.simps) (simp add: the_queue_eq has_request_def)

lemma handler1_loop_step:
  assumes "q < length (queues s)" "pending (queues s ! q) = b # bs"
  shows "handler1_loop s q port =
     handler1_loop
       (put_queue (bus_send s (output_channel port) (readable b)) q (answered (queues s ! q) [[]]))
       q port"
proof -
  let ?s1 = "put_queue s q ((queues s ! q)\<lparr>pending := bs\<rparr>)"
  let ?s2 = "bus_send ?s1 (output_channel port) (readable b)"
  have pop: "pop_from s q = Inr (b\<lparr>written := []\<rparr>, ?s1)"
    using assms by (rule pop_from_eq)
  have l2: "q < length (queues ?s2)"
    using assms(1) by (simp add: bus_send_def put_queue_simps)
  have "Ack ?s2 q (b\<lparr>written := []\<rparr>) =
      Inr (put_queue ?s2 q (flush_replies (push_reply (queues ?s2 ! q) (b\<lparr>written := []\<rparr>))))"
    using l2 by (rule Ack_eq')
  also have "put_queue ?s2 q (flush_replies (push_reply (queues ?s2 ! q) (b\<lparr>written := []\<rparr>))) =
      put_queue (bus_send s (output_channel port) (readable b)) q (answered (queues s ! q) [[]])"
    using assms
    by (simp add: bus_send_def put_queue_def answered_def push_reply_def flush_replies_def)
  finally have ack: "Ack ?s2 q (b\<lparr>written := []\<rparr>) =
      Inr (put_queue (bus_send s (output_channel port) (readable b)) q
             (answered (queues s ! q) [[]]))" .
  show ?thesis
    using assms pop ack
    by (subst handler1_loop.simps)
       (simp add: the_queue_eq has_request_def Let_def get_next_blob_all)
qed

lemma handler1_loop_eq:
  "q < length (queues s) \<Longrightarrow> pending (queues s ! q) = bs \<Longrightarrow>
     handler1_loop s q port =
       Inr (put_queue
              (s\<lparr>bus_sent := bus_sent s @ map (\<lambda>b. (output_channel port, readable b)) bs\<rparr>) q
              (answered (queues s ! q) (map (\<lambda>b. []) bs)))"
proof (induction bs arbitrary: s)
  case Nil
  then show ?case
    by (simp add: handler1_loop_done answered_Nil put_queue_def)
next
  case (Cons b bs)
  let ?Q = "queues s ! q"
  let ?t = "put_queue (bus_send s (output_channel port) (readable b)) q (answered ?Q [[]])"
  have l: "q < length (queues ?t)" and p: "pending (queues ?t ! q) = bs"
    and Q: "queues ?t ! q = answered ?Q [[]]"
    using Cons.prems
    by (simp_all add: put_queue_simps nth_put_queue bus_send_def answered_def)
  have "handler1_loop s q port = handler1_loop ?t q port"
    using Cons.prems by (rule handler1_loop_step)
  also have "\<dots> = Inr (put_queue
      (?t\<lparr>bus_sent := bus_sent ?t @ map (\<lambda>b. (output_channel port, readable b)) bs\<rparr>) q
      (answered (queues ?t ! q) (map (\<lambda>b. []) bs)))"
    using l p by (rule Cons.IH)
  also have "answered (queues ?t ! q) (map (\<lambda>b. []) bs) =
      answered ?Q ([[]] @ map (\<lambda>b. []) bs)"
    unfolding Q using Cons.prems(2) by (intro answered_answered) simp
  also have "put_queue
      (?t\<lparr>bus_sent := bus_sent ?t @ map (\<lambda>b. (output_channel port, readable b)) bs\<rparr>) q
      (answered ?Q ([[]] @ map (\<lambda>b. []) bs)) =
    put_queue
      (s\<lparr>bus_sent := bus_sent s @ map (\<lambda>b. (output_channel port, readable b)) (b # bs)\<rparr>) q
      (answered ?Q (map (\<lambda>b. []) (b # bs)))"
    by (simp add: put_queue_def bus_send_def)
  finally show ?case .
qed


lemma answered_acks:
  "answered q (map (\<lambda>b. []) (pending q)) =
     q\<lparr>pending := [],
       replies := replies q @ map (\<lambda>b. b\<lparr>written := []\<rparr>) (pending q),
       flushed := (if pending q = [] then flushed q
                   else length (replies q) + length (pending q))\<rparr>"
  by (simp add: answered_def zip_map2 zip_same_conv_map)

text \<open>
  Claim C6. Let \<open>q\<close> be the transmit queue of port \<open>p\<close>: queue 1 for port 0, queue
  \<open>2p + 3\<close> for a port from 1. A notification for \<open>q\<close> publishes, for each pending
  request in ring order, its readable bytes as they are on the channel
  \<^verbatim>\<open>"virtio-console" + p + "-output-bytes"\<close>, once each, and pushes each chain back with
  nothing written into it. No request is left pending, the replies are flushed, and no
  other queue changes.
\<close>

theorem output_forwarded:
  assumes "q < length (queues s)" and "q = (if p = 0 then 1 else 2 * p + 3)"
  shows "\<exists>s'. handler1 s q = Inr s' \<and>
     bus_sent s' = bus_sent s @
       map (\<lambda>b. (''virtio-console'' @ String_of_nat p @ ''-output-bytes'', readable b))
         (pending (queues s ! q)) \<and>
     pending (queues s' ! q) = [] \<and>
     replies (queues s' ! q) =
       replies (queues s ! q) @ map (\<lambda>b. b\<lparr>written := []\<rparr>) (pending (queues s ! q)) \<and>
     (pending (queues s ! q) \<noteq> [] \<longrightarrow> flushed (queues s' ! q) = length (replies (queues s' ! q))) \<and>
     length (queues s') = length (queues s) \<and>
     (\<forall>i. i \<noteq> q \<longrightarrow> queues s' ! i = queues s ! i)"
proof -
  from assms(2) have port: "port_of_queue q = p"
    by (simp add: port_of_queue_def)
  let ?ps = "pending (queues s ! q)"
  define s' where "s' = put_queue
      (s\<lparr>bus_sent := bus_sent s @ map (\<lambda>b. (output_channel p, readable b)) ?ps\<rparr>) q
      (answered (queues s ! q) (map (\<lambda>b. []) ?ps))"
  have run: "handler1 s q = Inr s'"
    unfolding handler1_def port s'_def using assms(1) by (intro handler1_loop_eq) simp_all
  have bus: "bus_sent s' = bus_sent s @
      map (\<lambda>b. (''virtio-console'' @ String_of_nat p @ ''-output-bytes'', readable b)) ?ps"
    by (simp add: s'_def put_queue_simps output_channel_def)
  have len: "length (queues s') = length (queues s)"
    by (simp add: s'_def put_queue_simps)
  have other: "queues s' ! i = queues s ! i" if "i \<noteq> q" for i
    using assms(1) that by (simp add: s'_def nth_put_queue)
  have "queues s' ! q = answered (queues s ! q) (map (\<lambda>b. []) ?ps)"
    using assms(1) by (simp add: s'_def nth_put_queue)
  then have this_queue: "queues s' ! q =
      (queues s ! q)\<lparr>pending := [],
        replies := replies (queues s ! q) @ map (\<lambda>b. b\<lparr>written := []\<rparr>) ?ps,
        flushed := (if ?ps = [] then flushed (queues s ! q)
                    else length (replies (queues s ! q)) + length ?ps)\<rparr>"
    by (simp only: answered_acks)
  have "pending (queues s' ! q) = []"
    and "replies (queues s' ! q) = replies (queues s ! q) @ map (\<lambda>b. b\<lparr>written := []\<rparr>) ?ps"
    and "?ps \<noteq> [] \<longrightarrow> flushed (queues s' ! q) = length (replies (queues s' ! q))"
    by (simp_all add: this_queue)
  with run bus len other show ?thesis by blast
qed

theorem output_forwarded_witness:
  "5 < length (queues (guest_post two_ports 5
         [\<lparr>head_idx = 0, readable = [104, 105], written = []\<rparr>,
          \<lparr>head_idx = 1, readable = [33], written = []\<rparr>])) \<and>
   (5::nat) = (if (1::nat) = 0 then 1 else 2 * 1 + 3) \<and>
   (\<exists>s'. handler1 (guest_post two_ports 5
         [\<lparr>head_idx = 0, readable = [104, 105], written = []\<rparr>,
          \<lparr>head_idx = 1, readable = [33], written = []\<rparr>]) 5 = Inr s' \<and>
      bus_sent s' = [(''virtio-console1-output-bytes'', [104, 105]),
                     (''virtio-console1-output-bytes'', [33])] \<and>
      pending (queues s' ! 5) = [] \<and>
      replies (queues s' ! 5) =
        [\<lparr>head_idx = 0, readable = [104, 105], written = []\<rparr>,
         \<lparr>head_idx = 1, readable = [33], written = []\<rparr>] \<and>
      flushed (queues s' ! 5) = 2)"
proof -
  let ?s = "guest_post two_ports 5
         [\<lparr>head_idx = 0, readable = [104, 105], written = []\<rparr>,
          \<lparr>head_idx = 1, readable = [33], written = []\<rparr>]"
  have 1: "5 < length (queues ?s)"
    by (simp add: guest_post_def put_queue_simps two_ports_eq)
  have 2: "(5::nat) = (if (1::nat) = 0 then 1 else 2 * 1 + 3)" by simp
  have 3: "String_of_nat 1 = ''1''" by code_simp
  have 4: "pending (queues ?s ! 5) =
      [\<lparr>head_idx = 0, readable = [104, 105], written = []\<rparr>,
       \<lparr>head_idx = 1, readable = [33], written = []\<rparr>]"
    and 5: "replies (queues ?s ! 5) = []" and 6: "bus_sent ?s = []"
    by (simp_all add: guest_post_def put_queue_def two_ports_eq)
  from output_forwarded [OF 1 2] obtain s' where
    "handler1 ?s 5 = Inr s'"
    "bus_sent s' = bus_sent ?s @
       map (\<lambda>b. (''virtio-console'' @ String_of_nat 1 @ ''-output-bytes'', readable b))
         (pending (queues ?s ! 5))"
    "pending (queues s' ! 5) = []"
    "replies (queues s' ! 5) =
       replies (queues ?s ! 5) @ map (\<lambda>b. b\<lparr>written := []\<rparr>) (pending (queues ?s ! 5))"
    "pending (queues ?s ! 5) \<noteq> [] \<longrightarrow> flushed (queues s' ! 5) = length (replies (queues s' ! 5))"
    by blast
  then have "handler1 ?s 5 = Inr s' \<and>
      bus_sent s' = [(''virtio-console1-output-bytes'', [104, 105]),
                     (''virtio-console1-output-bytes'', [33])] \<and>
      pending (queues s' ! 5) = [] \<and>
      replies (queues s' ! 5) =
        [\<lparr>head_idx = 0, readable = [104, 105], written = []\<rparr>,
         \<lparr>head_idx = 1, readable = [33], written = []\<rparr>] \<and>
      flushed (queues s' ! 5) = 2"
    unfolding 3 4 5 6 by simp
  with 1 2 show ?thesis by blast
qed


subsection \<open>The loop that keeps a ring from filling\<close>

lemma drain_excess_eq:
  "2 \<le> queue_size q \<Longrightarrow>
     drain_excess q =
       Inr (q\<lparr>pending := drop (length (pending q) - (queue_size q - 2)) (pending q)\<rparr>)"
proof (induction q rule: drain_excess.induct)
  case (1 queue)
  show ?case
  proof (cases "length (pending queue) \<le> queue_size queue - 2")
    case True
    with "1.prems" have "\<not> int (count_requests queue) > int (queue_size queue) - 2"
      by (simp add: count_requests_def)
    then have "drain_excess queue = Inr queue"
      by (subst drain_excess.simps) simp
    with True show ?thesis by simp
  next
    case False
    with "1.prems" have gt: "int (count_requests queue) > int (queue_size queue) - 2"
      by (simp add: count_requests_def)
    from False obtain b bs where p: "pending queue = b # bs"
      by (cases "pending queue") auto
    let ?q' = "queue\<lparr>pending := bs\<rparr>"
    have pop: "pop_request queue = Inr (b\<lparr>written := []\<rparr>, ?q')"
      by (simp add: pop_request_def p)
    have "drain_excess queue = drain_excess ?q'"
      using gt pop by (subst drain_excess.simps) simp
    also have "\<dots> = Inr (?q'\<lparr>pending := drop (length (pending ?q') - (queue_size ?q' - 2)) (pending ?q')\<rparr>)"
      using gt pop "1.prems" by (intro "1.IH") simp_all
    also have "drop (length (pending ?q') - (queue_size ?q' - 2)) (pending ?q') =
        drop (length (pending queue) - (queue_size queue - 2)) (pending queue)"
      using False by (simp add: p Suc_diff_le)
    finally show ?thesis by simp
  qed
qed

lemma drain_excess_small: "queue_size q < 2 \<Longrightarrow> drain_excess q = Inl PopEmpty"
proof (induction q rule: drain_excess.induct)
  case (1 queue)
  then have gt: "int (count_requests queue) > int (queue_size queue) - 2"
    by simp
  show ?case
  proof (cases "pending queue")
    case Nil
    with gt show ?thesis
      by (subst drain_excess.simps) (simp add: pop_request_def)
  next
    case (Cons b bs)
    then have pop: "pop_request queue = Inr (b\<lparr>written := []\<rparr>, queue\<lparr>pending := bs\<rparr>)"
      by (simp add: pop_request_def)
    have "drain_excess queue = drain_excess (queue\<lparr>pending := bs\<rparr>)"
      using gt pop by (subst drain_excess.simps) simp
    also have "\<dots> = Inl PopEmpty"
      using gt pop "1.prems" by (intro "1.IH") simp_all
    finally show ?thesis .
  qed
qed


definition empty_chains :: "nat \<Rightarrow> bufchain list" where
  \<comment> \<open>\<open>n\<close> chains with nothing to read, with head indices from 0\<close>
  "empty_chains n = map (\<lambda>i. \<lparr>head_idx = i, readable = [], written = []\<rparr>) [0..<n]"

lemma length_empty_chains: "length (empty_chains n) = n"
  by (simp add: empty_chains_def)

lemma handler0_eq:
  assumes "qid < length (queues s)" and "2 \<le> queue_size (queues s ! qid)"
  shows "handler0 s qid =
     Inr (put_queue s qid ((queues s ! qid)
            \<lparr>pending := drop (length (pending (queues s ! qid)) - (queue_size (queues s ! qid) - 2))
                         (pending (queues s ! qid))\<rparr>))"
  using assms by (simp add: handler0_def the_queue_eq drain_excess_eq)

lemma handler2_eq:
  assumes "2 < length (queues s)" and "2 \<le> queue_size (queues s ! 2)"
  shows "handler2 s 2 =
     Inr (put_queue s 2 ((queues s ! 2)
            \<lparr>pending := drop (length (pending (queues s ! 2)) - (queue_size (queues s ! 2) - 2))
                         (pending (queues s ! 2))\<rparr>))"
  using assms by (simp add: handler2_def the_queue_eq drain_excess_eq)

text \<open>
  Claim C2, as the code has it. The handler of a receive queue (handler 0 for queue 0
  and the receive queue of every port from 1, handler 2 for queue 2) pops the oldest
  pending requests while more than \<^verbatim>\<open>queue.size - 2\<close> are pending, and drops them: they
  are not pushed back. For a queue of at least two slots the handler returns with
  \<open>min count (size - 2)\<close> requests pending, the newest ones, in order; a queue with at
  most \<open>size - 2\<close> pending requests, so also one with exactly \<open>size - 2\<close>, is left as it
  is.
\<close>

theorem ring_safeguard:
  assumes "qid < length (queues s)" and "2 \<le> queue_size (queues s ! qid)"
  shows "\<exists>s'. handler0 s qid = Inr s' \<and> (qid = 2 \<longrightarrow> handler2 s qid = Inr s') \<and>
     pending (queues s' ! qid) =
       drop (count_requests (queues s ! qid) - (queue_size (queues s ! qid) - 2))
         (pending (queues s ! qid)) \<and>
     count_requests (queues s' ! qid) =
       min (count_requests (queues s ! qid)) (queue_size (queues s ! qid) - 2) \<and>
     replies (queues s' ! qid) = replies (queues s ! qid) \<and>
     (count_requests (queues s ! qid) \<le> queue_size (queues s ! qid) - 2 \<longrightarrow> s' = s)"
proof -
  let ?Q = "queues s ! qid"
  define s' where
    "s' = put_queue s qid (?Q\<lparr>pending := drop (length (pending ?Q) - (queue_size ?Q - 2)) (pending ?Q)\<rparr>)"
  have 0: "handler0 s qid = Inr s'"
    unfolding s'_def using assms by (rule handler0_eq)
  have 2: "handler2 s qid = Inr s'" if "qid = 2"
    using handler2_eq [of s] assms that by (simp add: s'_def)
  have q: "queues s' ! qid =
      ?Q\<lparr>pending := drop (length (pending ?Q) - (queue_size ?Q - 2)) (pending ?Q)\<rparr>"
    using assms(1) by (simp add: s'_def nth_put_queue)
  have same: "s' = s" if "count_requests ?Q \<le> queue_size ?Q - 2"
    using that by (simp add: s'_def count_requests_def put_queue_def)
  have "pending (queues s' ! qid) =
      drop (count_requests ?Q - (queue_size ?Q - 2)) (pending ?Q)"
    and "count_requests (queues s' ! qid) = min (count_requests ?Q) (queue_size ?Q - 2)"
    and "replies (queues s' ! qid) = replies ?Q"
    by (auto simp: q count_requests_def)
  with 0 2 same show ?thesis by blast
qed

theorem ring_safeguard_witness:
  "(2::nat) < length (queues (guest_post two_ports 2 (empty_chains 16))) \<and>
   2 \<le> queue_size (queues (guest_post two_ports 2 (empty_chains 16)) ! 2) \<and>
   (\<exists>s'. handler0 (guest_post two_ports 2 (empty_chains 16)) 2 = Inr s' \<and>
      handler2 (guest_post two_ports 2 (empty_chains 16)) 2 = Inr s' \<and>
      pending (queues s' ! 2) = drop 2 (empty_chains 16) \<and>
      count_requests (queues s' ! 2) = 14 \<and>
      replies (queues s' ! 2) = [])"
proof -
  let ?s = "guest_post two_ports 2 (empty_chains 16)"
  have 1: "2 < length (queues ?s)"
    by (simp add: guest_post_def put_queue_simps two_ports_eq)
  have q: "queues ?s ! 2 =
      \<lparr>queue_size = 16, notify = 2, configured = True, pending = empty_chains 16,
        replies = [], flushed = 0\<rparr>"
    by (simp add: guest_post_def put_queue_def two_ports_eq)
  have 2: "2 \<le> queue_size (queues ?s ! 2)"
    by (simp add: q)
  from ring_safeguard [OF 1 2] obtain s' where
    "handler0 ?s 2 = Inr s'" "handler2 ?s 2 = Inr s'"
    "pending (queues s' ! 2) =
       drop (count_requests (queues ?s ! 2) - (queue_size (queues ?s ! 2) - 2))
         (pending (queues ?s ! 2))"
    "count_requests (queues s' ! 2) =
       min (count_requests (queues ?s ! 2)) (queue_size (queues ?s ! 2) - 2)"
    "replies (queues s' ! 2) = replies (queues ?s ! 2)"
    by blast
  then have "handler0 ?s 2 = Inr s' \<and> handler2 ?s 2 = Inr s' \<and>
      pending (queues s' ! 2) = drop 2 (empty_chains 16) \<and>
      count_requests (queues s' ! 2) = 14 \<and> replies (queues s' ! 2) = []"
    by (simp add: q count_requests_def length_empty_chains)
  with 1 2 show ?thesis by blast
qed

text \<open>
  Claim C2 as the spec states it fails: with exactly \<open>capacity - 2 = 14\<close> requests
  pending on queue 2, the count has reached \<open>capacity - 2\<close>, and the handler pops nothing.
\<close>

theorem ring_safeguard_counterexample:
  "count_requests (queues (guest_post two_ports 2 (empty_chains 14)) ! 2) =
     queue_size (queues (guest_post two_ports 2 (empty_chains 14)) ! 2) - 2 \<and>
   handler2 (guest_post two_ports 2 (empty_chains 14)) 2 =
     Inr (guest_post two_ports 2 (empty_chains 14))"
proof -
  let ?s = "guest_post two_ports 2 (empty_chains 14)"
  have 1: "2 < length (queues ?s)"
    by (simp add: guest_post_def put_queue_simps two_ports_eq)
  have q: "queues ?s ! 2 =
      \<lparr>queue_size = 16, notify = 2, configured = True, pending = empty_chains 14,
        replies = [], flushed = 0\<rparr>"
    by (simp add: guest_post_def put_queue_def two_ports_eq)
  have "handler2 ?s 2 = Inr (put_queue ?s 2 (queues ?s ! 2))"
    using handler2_eq [OF 1] by (simp add: q length_empty_chains)
  then show ?thesis
    by (simp add: put_queue_same) (simp add: q count_requests_def length_empty_chains)
qed


subsection \<open>The first message of the control-transmit queue\<close>

lemma message_of_fresh: "message_of (m\<lparr>written := []\<rparr>) = message_of m"
  by (simp add: message_of_def)

lemma handler3_unknown:
  assumes "3 < length (queues s)" "pending (queues s ! 3) = m # ms"
    and "message_of m = Some [p, e, v]"
    and "e \<noteq> VIRTIO_CONSOLE_DEVICE_READY" "e \<noteq> VIRTIO_CONSOLE_PORT_READY"
    and "e \<noteq> VIRTIO_CONSOLE_PORT_OPEN"
  shows "handler3 s 3 =
     (if DEBUG s then Inl AssertFailed
      else Inr (put_queue s 3
             ((queues s ! 3)\<lparr>pending := ms,
                replies := replies (queues s ! 3) @ [m\<lparr>written := []\<rparr>],
                flushed := Suc (length (replies (queues s ! 3)))\<rparr>)))"
proof -
  let ?s0 = "put_queue s 3 ((queues s ! 3)\<lparr>pending := ms\<rparr>)"
  have l: "3 < length (queues ?s0)"
    using assms(1) by (simp add: put_queue_simps)
  have msg: "message_of (m\<lparr>written := []\<rparr>) = Some [p, e, v]"
    using assms(3) by (simp only: message_of_fresh)
  have "control_message ?s0 3 (m\<lparr>written := []\<rparr>) =
      (if DEBUG ?s0 then Inl AssertFailed
       else Inr (put_queue ?s0 3
              (flush_replies (push_reply (queues ?s0 ! 3) (m\<lparr>written := []\<rparr>))), Return))"
    using l msg assms(4-6) by (rule control_message_unknown)
  then show ?thesis
    using assms(1)
    by (simp add: handler3_step [OF assms(1,2)] put_queue_simps nth_put_queue put_queue_twice
        push_reply_def flush_replies_def)
qed

lemma handler3_device_ready:
  assumes "3 < length (queues s)" "pending (queues s ! 3) = m # ms"
    and "message_of m = Some [p, VIRTIO_CONSOLE_DEVICE_READY, v]"
    and "ports s \<le> length (pending (queues s ! 2))"
  shows "handler3 s 3 =
     handler3
       (put_queue
          (put_queue s 3
             ((queues s ! 3)\<lparr>pending := ms,
                replies := replies (queues s ! 3) @ [m\<lparr>written := []\<rparr>],
                flushed := Suc (length (replies (queues s ! 3)))\<rparr>)) 2
          (answered (queues s ! 2)
             (map (\<lambda>k. event_message k VIRTIO_CONSOLE_DEVICE_ADD 0) [0..<ports s]))) 3"
proof -
  let ?s0 = "put_queue s 3 ((queues s ! 3)\<lparr>pending := ms\<rparr>)"
  have l: "3 < length (queues ?s0)" and q2: "queues ?s0 ! 2 = queues s ! 2"
    and p: "ports ?s0 = ports s"
    using assms(1) by (simp_all add: put_queue_simps nth_put_queue)
  have msg: "message_of (m\<lparr>written := []\<rparr>) = Some [p, VIRTIO_CONSOLE_DEVICE_READY, v]"
    using assms(3) by (simp only: message_of_fresh)
  have n: "ports ?s0 \<le> length (pending (queues ?s0 ! 2))"
    using assms(4) by (simp only: q2 p)
  from control_message_device_ready [OF l msg n] show ?thesis
    using assms(1)
    by (simp add: handler3_step [OF assms(1,2)] q2 p)
       (simp add: put_queue_simps nth_put_queue put_queue_twice push_reply_def flush_replies_def)
qed

lemma handler3_port_ready:
  assumes "3 < length (queues s)" "pending (queues s ! 3) = m # ms"
    and "message_of m = Some [p, VIRTIO_CONSOLE_PORT_READY, v]"
    and "length (port_ready_messages s p) \<le> length (pending (queues s ! 2))"
  shows "handler3 s 3 =
     handler3
       (put_queue
          (put_queue s 3
             ((queues s ! 3)\<lparr>pending := ms,
                replies := replies (queues s ! 3) @ [m\<lparr>written := []\<rparr>, m\<lparr>written := []\<rparr>],
                flushed := Suc (Suc (length (replies (queues s ! 3))))\<rparr>)) 2
          (answered (queues s ! 2) (port_ready_messages s p))) 3"
proof -
  let ?s0 = "put_queue s 3 ((queues s ! 3)\<lparr>pending := ms\<rparr>)"
  have l: "3 < length (queues ?s0)" and q2: "queues ?s0 ! 2 = queues s ! 2"
    and p: "port_ready_messages ?s0 p = port_ready_messages s p"
    using assms(1) by (simp_all add: put_queue_simps nth_put_queue port_ready_messages_def)
  have msg: "message_of (m\<lparr>written := []\<rparr>) = Some [p, VIRTIO_CONSOLE_PORT_READY, v]"
    using assms(3) by (simp only: message_of_fresh)
  have n: "length (port_ready_messages ?s0 p) \<le> length (pending (queues ?s0 ! 2))"
    using assms(4) by (simp only: q2 p)
  from control_message_port_ready [OF l msg n] show ?thesis
    using assms(1)
    by (simp add: handler3_step [OF assms(1,2)] q2 p)
       (simp add: put_queue_simps nth_put_queue put_queue_twice push_reply_def flush_replies_def)
qed

lemma handler3_port_open:
  assumes "3 < length (queues s)" "pending (queues s ! 3) = m # ms"
    and "message_of m = Some [p, VIRTIO_CONSOLE_PORT_OPEN, v]"
  shows "p \<noteq> 0 \<Longrightarrow>
     handler3 s 3 =
       handler3
         (put_queue s 3
            ((queues s ! 3)\<lparr>pending := ms,
               replies := replies (queues s ! 3) @ [m\<lparr>written := []\<rparr>, m\<lparr>written := []\<rparr>],
               flushed := Suc (Suc (length (replies (queues s ! 3))))\<rparr>)) 3"
    and "p = 0 \<Longrightarrow> pending (queues s ! 2) \<noteq> [] \<Longrightarrow>
     handler3 s 3 =
       handler3
         (put_queue
            (put_queue s 3
               ((queues s ! 3)\<lparr>pending := ms,
                  replies := replies (queues s ! 3) @ [m\<lparr>written := []\<rparr>, m\<lparr>written := []\<rparr>],
                  flushed := Suc (Suc (length (replies (queues s ! 3))))\<rparr>)) 2
            (answered (queues s ! 2) [resize_message 0 (rows s) (cols s)])) 3"
proof -
  let ?s0 = "put_queue s 3 ((queues s ! 3)\<lparr>pending := ms\<rparr>)"
  have l: "3 < length (queues ?s0)" and q2: "queues ?s0 ! 2 = queues s ! 2"
    and r: "rows ?s0 = rows s" "cols ?s0 = cols s"
    using assms(1) by (simp_all add: put_queue_simps nth_put_queue)
  have msg: "message_of (m\<lparr>written := []\<rparr>) = Some [p, VIRTIO_CONSOLE_PORT_OPEN, v]"
    using assms(3) by (simp only: message_of_fresh)
  show "handler3 s 3 =
       handler3
         (put_queue s 3
            ((queues s ! 3)\<lparr>pending := ms,
               replies := replies (queues s ! 3) @ [m\<lparr>written := []\<rparr>, m\<lparr>written := []\<rparr>],
               flushed := Suc (Suc (length (replies (queues s ! 3))))\<rparr>)) 3"
    if "p \<noteq> 0"
    using control_message_port_open(1) [OF l msg that] assms(1)
    by (simp add: handler3_step [OF assms(1,2)])
       (simp add: put_queue_simps nth_put_queue put_queue_twice push_reply_def flush_replies_def)
  show "handler3 s 3 =
       handler3
         (put_queue
            (put_queue s 3
               ((queues s ! 3)\<lparr>pending := ms,
                  replies := replies (queues s ! 3) @ [m\<lparr>written := []\<rparr>, m\<lparr>written := []\<rparr>],
                  flushed := Suc (Suc (length (replies (queues s ! 3))))\<rparr>)) 2
            (answered (queues s ! 2) [resize_message 0 (rows s) (cols s)])) 3"
    if "p = 0" "pending (queues s ! 2) \<noteq> []"
  proof -
    from that(2) have "pending (queues ?s0 ! 2) \<noteq> []" by (simp add: q2)
    from control_message_port_open(2) [OF l msg that(1) this] show ?thesis
      using assms(1)
      by (simp add: handler3_step [OF assms(1,2)] q2 r)
         (simp add: put_queue_simps nth_put_queue put_queue_twice push_reply_def flush_replies_def)
  qed
qed


subsection \<open>What the chains pushed on queue 2 carry\<close>

lemma written_of_answers:
  "length ms \<le> length ps \<Longrightarrow>
     map written (map (\<lambda>(b, m). b\<lparr>written := m\<rparr>) (zip ps ms)) = ms"
proof (induction ms arbitrary: ps)
  case Nil
  then show ?case by simp
next
  case (Cons m ms)
  then show ?case by (cases ps) simp_all
qed

lemma head_idx_of_answers:
  "map head_idx (map (\<lambda>(b, m). b\<lparr>written := m\<rparr>) (zip ps ms)) =
     map head_idx (take (length ms) ps)"
proof (induction ms arbitrary: ps)
  case Nil
  then show ?case by simp
next
  case (Cons m ms)
  then show ?case by (cases ps) simp_all
qed

lemma decode_device_add:
  "i < 2 ^ 32 \<Longrightarrow>
     Unmarshall [''w'', ''h'', ''h''] (event_message i VIRTIO_CONSOLE_DEVICE_ADD 0) 0 =
       Some [i, VIRTIO_CONSOLE_DEVICE_ADD, 0]"
  using decode_event_message [of i VIRTIO_CONSOLE_DEVICE_ADD 0 "[]"]
  by (simp add: event_codes)

text \<open>
  Claim C4, as the code has it. The control-transmit queue holds one message,
  \<^verbatim>\<open>DeviceReady\<close>, and queue 2 holds at least as many posted buffers as the device has
  ports, \<open>N\<close> (\<^verbatim>\<open>SendEvent\<close> pops one for each message, without a test). Then the handler
  returns, and it has pushed exactly \<open>N\<close> chains on queue 2, the \<open>N\<close> oldest posted ones in
  order, carrying the messages \<^verbatim>\<open>DeviceAdd\<close> with value 0 for the ports \<open>0, 1, ..., N - 1\<close>
  in this order. The \<^verbatim>\<open>DeviceReady\<close> message itself is acknowledged once.
\<close>

theorem device_ready_adds_ports:
  assumes "3 < length (queues s)"
    and "pending (queues s ! 3) = [m]"
    and "message_of m = Some [p, VIRTIO_CONSOLE_DEVICE_READY, v]"
    and "ports s \<le> length (pending (queues s ! 2))"
  shows "\<exists>s' sent. handler3 s 3 = Inr s' \<and>
     replies (queues s' ! 2) = replies (queues s ! 2) @ sent \<and>
     length sent = ports s \<and>
     map head_idx sent = map head_idx (take (ports s) (pending (queues s ! 2))) \<and>
     map written sent = map (\<lambda>i. event_message i VIRTIO_CONSOLE_DEVICE_ADD 0) [0..<ports s] \<and>
     (ports s \<le> 2 ^ 32 \<longrightarrow>
        map (\<lambda>b. Unmarshall [''w'', ''h'', ''h''] (written b) 0) sent =
          map (\<lambda>i. Some [i, VIRTIO_CONSOLE_DEVICE_ADD, 0]) [0..<ports s]) \<and>
     pending (queues s' ! 2) = drop (ports s) (pending (queues s ! 2)) \<and>
     pending (queues s' ! 3) = [] \<and>
     replies (queues s' ! 3) = replies (queues s ! 3) @ [m\<lparr>written := []\<rparr>]"
proof -
  let ?adds = "map (\<lambda>i. event_message i VIRTIO_CONSOLE_DEVICE_ADD 0) [0..<ports s]"
  let ?Q2 = "queues s ! 2" and ?Q3 = "queues s ! 3"
  define sent where "sent = map (\<lambda>(b, m). b\<lparr>written := m\<rparr>) (zip (pending ?Q2) ?adds)"
  define s' where "s' = put_queue
      (put_queue s 3
         (?Q3\<lparr>pending := [], replies := replies ?Q3 @ [m\<lparr>written := []\<rparr>],
             flushed := Suc (length (replies ?Q3))\<rparr>)) 2
      (answered ?Q2 ?adds)"
  have q2: "queues s' ! 2 = answered ?Q2 ?adds"
    and q3: "queues s' ! 3 = ?Q3\<lparr>pending := [], replies := replies ?Q3 @ [m\<lparr>written := []\<rparr>],
             flushed := Suc (length (replies ?Q3))\<rparr>"
    and l: "3 < length (queues s')"
    using assms(1) by (simp_all add: s'_def nth_put_queue put_queue_simps)
  have "handler3 s 3 = handler3 s' 3"
    unfolding s'_def using assms by (rule handler3_device_ready)
  also have "\<dots> = Inr s'"
    using l by (rule handler3_done) (simp add: q3)
  finally have run: "handler3 s 3 = Inr s'" .
  have len: "length ?adds \<le> length (pending ?Q2)"
    using assms(4) by simp
  have w: "map written sent = ?adds"
    unfolding sent_def using len by (rule written_of_answers)
  have h: "map head_idx sent = map head_idx (take (ports s) (pending ?Q2))"
    unfolding sent_def using head_idx_of_answers [of "pending ?Q2" ?adds] by simp
  have n: "length sent = ports s"
    using assms(4) by (simp add: sent_def)
  have d: "map (\<lambda>b. Unmarshall [''w'', ''h'', ''h''] (written b) 0) sent =
      map (\<lambda>i. Some [i, VIRTIO_CONSOLE_DEVICE_ADD, 0]) [0..<ports s]"
    if "ports s \<le> 2 ^ 32"
  proof -
    have "map (\<lambda>b. Unmarshall [''w'', ''h'', ''h''] (written b) 0) sent =
        map (\<lambda>x. Unmarshall [''w'', ''h'', ''h''] x 0) (map written sent)"
      by simp
    also have "\<dots> = map (\<lambda>i. Unmarshall [''w'', ''h'', ''h'']
        (event_message i VIRTIO_CONSOLE_DEVICE_ADD 0) 0) [0..<ports s]"
      by (simp only: w map_map comp_def)
    also have "\<dots> = map (\<lambda>i. Some [i, VIRTIO_CONSOLE_DEVICE_ADD, 0]) [0..<ports s]"
      using that by (intro map_cong refl decode_device_add) simp
    finally show ?thesis .
  qed
  have "replies (queues s' ! 2) = replies ?Q2 @ sent"
    and "pending (queues s' ! 2) = drop (ports s) (pending ?Q2)"
    by (simp_all add: q2 answered_def sent_def)
  moreover have "pending (queues s' ! 3) = []"
    and "replies (queues s' ! 3) = replies ?Q3 @ [m\<lparr>written := []\<rparr>]"
    by (simp_all add: q3)
  ultimately show ?thesis
    using run n h w d by blast
qed


subsection \<open>A device with a control message waiting\<close>

definition control_example :: "bufchain \<Rightarrow> VirtioConsole" where
  \<comment> \<open>the driver has posted three buffers on queue 2 and the message \<open>m\<close> on queue 3\<close>
  "control_example m = guest_post (guest_post two_ports 2 (empty_chains 3)) 3 [m]"

lemma empty_chains_3:
  "empty_chains 3 =
     [\<lparr>head_idx = 0, readable = [], written = []\<rparr>,
      \<lparr>head_idx = 1, readable = [], written = []\<rparr>,
      \<lparr>head_idx = 2, readable = [], written = []\<rparr>]"
  by (simp add: empty_chains_def numeral_3_eq_3)

lemma control_example_eq:
  "control_example m =
     \<lparr>rows = 30, cols = 100, ports = 2, consolePortEnable = 15,
      queues =
        [\<lparr>queue_size = 16, notify = 0, configured = False, pending = [], replies = [], flushed = 0\<rparr>,
         \<lparr>queue_size = 16, notify = 1, configured = False, pending = [], replies = [], flushed = 0\<rparr>,
         \<lparr>queue_size = 16, notify = 2, configured = True, pending = empty_chains 3,
            replies = [], flushed = 0\<rparr>,
         \<lparr>queue_size = 16, notify = 3, configured = True, pending = [m], replies = [], flushed = 0\<rparr>,
         \<lparr>queue_size = 16, notify = 0, configured = False, pending = [], replies = [], flushed = 0\<rparr>,
         \<lparr>queue_size = 8, notify = 1, configured = False, pending = [], replies = [], flushed = 0\<rparr>],
      bus_sent = [], DEBUG = False\<rparr>"
  by (simp add: control_example_def guest_post_def put_queue_def two_ports_eq)

lemma control_example_simps:
  "3 < length (queues (control_example m))"
  "pending (queues (control_example m) ! 3) = [m]"
  "replies (queues (control_example m) ! 3) = []"
  "pending (queues (control_example m) ! 2) = empty_chains 3"
  "replies (queues (control_example m) ! 2) = []"
  "ports (control_example m) = 2"
  "rows (control_example m) = 30"
  "cols (control_example m) = 100"
  "consolePortEnable (control_example m) = 15"
  "DEBUG (control_example m) = False"
  by (simp_all add: control_example_eq)

definition control_request :: "nat \<Rightarrow> nat \<Rightarrow> nat \<Rightarrow> bufchain" where
  \<comment> \<open>a chain of the driver that carries a control message\<close>
  "control_request port event val =
     \<lparr>head_idx = 9, readable = event_message port event val, written = []\<rparr>"

lemma message_of_request:
  "message_of (control_request p e v) = Some [p mod 2 ^ 32, e mod 2 ^ 16, v mod 2 ^ 16]"
  using decode_event_message [of p e v "[]"]
  by (simp add: message_of_def control_request_def)


theorem device_ready_adds_ports_witness:
  "3 < length (queues (control_example (control_request 0 0 0))) \<and>
   pending (queues (control_example (control_request 0 0 0)) ! 3) = [control_request 0 0 0] \<and>
   message_of (control_request 0 0 0) = Some [0, VIRTIO_CONSOLE_DEVICE_READY, 0] \<and>
   ports (control_example (control_request 0 0 0))
     \<le> length (pending (queues (control_example (control_request 0 0 0)) ! 2)) \<and>
   (\<exists>s' sent. handler3 (control_example (control_request 0 0 0)) 3 = Inr s' \<and>
      replies (queues s' ! 2) = sent \<and>
      map head_idx sent = [0, 1] \<and>
      map written sent = [[0, 0, 0, 0, 1, 0, 0, 0], [1, 0, 0, 0, 1, 0, 0, 0]] \<and>
      pending (queues s' ! 2) = [\<lparr>head_idx = 2, readable = [], written = []\<rparr>] \<and>
      pending (queues s' ! 3) = [] \<and>
      replies (queues s' ! 3) = [control_request 0 0 0])"
proof -
  let ?m = "control_request 0 0 0"
  let ?s = "control_example ?m"
  have 1: "3 < length (queues ?s)" and 2: "pending (queues ?s ! 3) = [?m]"
    by (simp_all add: control_example_simps)
  have 3: "message_of ?m = Some [0, VIRTIO_CONSOLE_DEVICE_READY, 0]"
    by (simp add: message_of_request event_codes)
  have 4: "ports ?s \<le> length (pending (queues ?s ! 2))"
    by (simp add: control_example_simps length_empty_chains)
  have adds: "map (\<lambda>i. event_message i VIRTIO_CONSOLE_DEVICE_ADD 0) [0..<2] =
      [[0, 0, 0, 0, 1, 0, 0, 0], [1, 0, 0, 0, 1, 0, 0, 0]]"
    by code_simp
  have fresh: "?m\<lparr>written := []\<rparr> = ?m"
    by (simp add: control_request_def)
  have p: "ports ?s = 2" and r2: "replies (queues ?s ! 2) = []" and r3: "replies (queues ?s ! 3) = []"
    by (simp_all add: control_example_simps)
  have t: "take 2 (pending (queues ?s ! 2)) =
      [\<lparr>head_idx = 0, readable = [], written = []\<rparr>, \<lparr>head_idx = 1, readable = [], written = []\<rparr>]"
    and d: "drop 2 (pending (queues ?s ! 2)) = [\<lparr>head_idx = 2, readable = [], written = []\<rparr>]"
    by (simp_all add: control_example_simps empty_chains_3)
  from device_ready_adds_ports [OF 1 2 3 4] obtain s' sent where
    "handler3 ?s 3 = Inr s'"
    "replies (queues s' ! 2) = replies (queues ?s ! 2) @ sent"
    "map head_idx sent = map head_idx (take (ports ?s) (pending (queues ?s ! 2)))"
    "map written sent = map (\<lambda>i. event_message i VIRTIO_CONSOLE_DEVICE_ADD 0) [0..<ports ?s]"
    "pending (queues s' ! 2) = drop (ports ?s) (pending (queues ?s ! 2))"
    "pending (queues s' ! 3) = []"
    "replies (queues s' ! 3) = replies (queues ?s ! 3) @ [?m\<lparr>written := []\<rparr>]"
    by (elim exE conjE) (rule that; assumption)
  then have "handler3 ?s 3 = Inr s' \<and>
    replies (queues s' ! 2) = sent \<and>
    map head_idx sent = [0, 1] \<and>
    map written sent = [[0, 0, 0, 0, 1, 0, 0, 0], [1, 0, 0, 0, 1, 0, 0, 0]] \<and>
    pending (queues s' ! 2) = [\<lparr>head_idx = 2, readable = [], written = []\<rparr>] \<and>
    pending (queues s' ! 3) = [] \<and>
    replies (queues s' ! 3) = [?m]"
    unfolding p r2 r3 t d adds fresh by simp
  then have "\<exists>s' sent. handler3 ?s 3 = Inr s' \<and>
    replies (queues s' ! 2) = sent \<and>
    map head_idx sent = [0, 1] \<and>
    map written sent = [[0, 0, 0, 0, 1, 0, 0, 0], [1, 0, 0, 0, 1, 0, 0, 0]] \<and>
    pending (queues s' ! 2) = [\<lparr>head_idx = 2, readable = [], written = []\<rparr>] \<and>
    pending (queues s' ! 3) = [] \<and>
    replies (queues s' ! 3) = [?m]"
    by (intro exI)
  with 1 2 3 4 show ?thesis by (intro conjI)
qed


lemma handler3_port_open_empty:
  assumes "3 < length (queues s)" "pending (queues s ! 3) = m # ms"
    and "message_of m = Some [0, VIRTIO_CONSOLE_PORT_OPEN, v]"
    and "pending (queues s ! 2) = []"
  shows "handler3 s 3 = Inl PopEmpty"
proof -
  let ?s0 = "put_queue s 3 ((queues s ! 3)\<lparr>pending := ms\<rparr>)"
  let ?s1 = "put_queue ?s0 3 (flush_replies (push_reply (queues ?s0 ! 3) (m\<lparr>written := []\<rparr>)))"
  have l: "3 < length (queues ?s0)" and l1: "3 < length (queues ?s1)"
    and q2: "pending (queues ?s1 ! 2) = []"
    using assms(1,4) by (simp_all add: put_queue_simps nth_put_queue)
  have msg: "message_of (m\<lparr>written := []\<rparr>) = Some [0, VIRTIO_CONSOLE_PORT_OPEN, v]"
    using assms(3) by (simp only: message_of_fresh)
  have "port_open ?s1 3 (m\<lparr>written := []\<rparr>) 0 = Inl PopEmpty"
    using l1 refl q2 by (rule port_open_eq(3))
  then have "control_message ?s0 3 (m\<lparr>written := []\<rparr>) = Inl PopEmpty"
    by (simp add: control_message_dispatch [OF l msg] event_codes bind_result_simps Let_def)
  then show ?thesis
    by (simp add: handler3_step [OF assms(1,2)])
qed

lemma resize_30_100: "resize_message 0 30 100 = [0, 0, 0, 0, 5, 0, 0, 0, 30, 0, 100, 0]"
  by code_simp

text \<open>
  Claim C5, as the code has it. The control-transmit queue holds one message,
  \<^verbatim>\<open>PortOpen\<close> for port \<open>p\<close>.
  For \<open>p = 0\<close> and a posted buffer on queue 2, the handler returns having pushed exactly
  one chain on queue 2, the oldest posted one, carrying the \<^verbatim>\<open>Resize\<close> message for port 0
  with value 0 and the rows and columns the device has at that moment; for 30 rows and
  100 columns these are the bytes \<open>0 0 0 0, 5 0, 0 0, 30 0, 100 0\<close>. For \<open>p \<noteq> 0\<close> the handler
  returns and has sent nothing: no queue but queue 3 has changed and nothing was published
  on the bus. (For \<open>p = 0\<close> with no posted buffer on queue 2, \<^verbatim>\<open>pop_request\<close> fails.)
\<close>

theorem port_open_sends_size:
  assumes "3 < length (queues s)"
    and "pending (queues s ! 3) = [m]"
    and "message_of m = Some [p, VIRTIO_CONSOLE_PORT_OPEN, v]"
  shows "(p = 0 \<and> pending (queues s ! 2) \<noteq> [] \<longrightarrow>
            (\<exists>s'. handler3 s 3 = Inr s' \<and>
               replies (queues s' ! 2) =
                 replies (queues s ! 2) @
                   [(hd (pending (queues s ! 2)))\<lparr>written := resize_message 0 (rows s) (cols s)\<rparr>] \<and>
               pending (queues s' ! 2) = tl (pending (queues s ! 2)) \<and>
               flushed (queues s' ! 2) = length (replies (queues s' ! 2)) \<and>
               rows s' = rows s \<and> cols s' = cols s)) \<and>
         (p = 0 \<and> pending (queues s ! 2) = [] \<longrightarrow> handler3 s 3 = Inl PopEmpty) \<and>
         (p \<noteq> 0 \<longrightarrow>
            (\<exists>s'. handler3 s 3 = Inr s' \<and> bus_sent s' = bus_sent s \<and>
               length (queues s') = length (queues s) \<and>
               (\<forall>i. i \<noteq> 3 \<longrightarrow> queues s' ! i = queues s ! i))) \<and>
         Unmarshall [''w'', ''h'', ''h'', ''h'', ''h''] (resize_message 0 (rows s) (cols s)) 0 =
           Some [0, VIRTIO_CONSOLE_RESIZE, 0, rows s mod 2 ^ 16, cols s mod 2 ^ 16] \<and>
         (rows s = 30 \<and> cols s = 100 \<longrightarrow>
            resize_message 0 (rows s) (cols s) = [0, 0, 0, 0, 5, 0, 0, 0, 30, 0, 100, 0])"
proof -
  let ?Q2 = "queues s ! 2" and ?Q3 = "queues s ! 3"
  let ?Q3' = "?Q3\<lparr>pending := [],
      replies := replies ?Q3 @ [m\<lparr>written := []\<rparr>, m\<lparr>written := []\<rparr>],
      flushed := Suc (Suc (length (replies ?Q3)))\<rparr>"
  have zero: "\<exists>s'. handler3 s 3 = Inr s' \<and>
      replies (queues s' ! 2) =
        replies ?Q2 @ [(hd (pending ?Q2))\<lparr>written := resize_message 0 (rows s) (cols s)\<rparr>] \<and>
      pending (queues s' ! 2) = tl (pending ?Q2) \<and>
      flushed (queues s' ! 2) = length (replies (queues s' ! 2)) \<and>
      rows s' = rows s \<and> cols s' = cols s"
    if "p = 0" "pending ?Q2 \<noteq> []"
  proof -
    define s' where "s' = put_queue (put_queue s 3 ?Q3') 2
        (answered ?Q2 [resize_message 0 (rows s) (cols s)])"
    have q2: "queues s' ! 2 = answered ?Q2 [resize_message 0 (rows s) (cols s)]"
      and q3: "pending (queues s' ! 3) = []" and l: "3 < length (queues s')"
      and r: "rows s' = rows s" "cols s' = cols s"
      using assms(1) by (simp_all add: s'_def nth_put_queue put_queue_simps)
    have "handler3 s 3 = handler3 s' 3"
      unfolding s'_def using assms that by (rule handler3_port_open(2))
    also have "\<dots> = Inr s'"
      using l q3 by (rule handler3_done)
    finally have "handler3 s 3 = Inr s'" .
    moreover have "replies (queues s' ! 2) =
        replies ?Q2 @ [(hd (pending ?Q2))\<lparr>written := resize_message 0 (rows s) (cols s)\<rparr>]"
      and "pending (queues s' ! 2) = tl (pending ?Q2)"
      and "flushed (queues s' ! 2) = length (replies (queues s' ! 2))"
      using that(2) by (simp_all add: q2 answered_single)
    ultimately show ?thesis using r by (intro exI [of _ s'] conjI)
  qed
  have empty: "handler3 s 3 = Inl PopEmpty" if "p = 0" "pending ?Q2 = []"
    using assms that by (intro handler3_port_open_empty [of s m "[]" v]) simp_all
  have other: "\<exists>s'. handler3 s 3 = Inr s' \<and> bus_sent s' = bus_sent s \<and>
      length (queues s') = length (queues s) \<and> (\<forall>i. i \<noteq> 3 \<longrightarrow> queues s' ! i = queues s ! i)"
    if "p \<noteq> 0"
  proof -
    define s' where "s' = put_queue s 3 ?Q3'"
    have q3: "pending (queues s' ! 3) = []" and l: "3 < length (queues s')"
      and b: "bus_sent s' = bus_sent s" and n: "length (queues s') = length (queues s)"
      and o: "\<forall>i. i \<noteq> 3 \<longrightarrow> queues s' ! i = queues s ! i"
      using assms(1) by (simp_all add: s'_def nth_put_queue put_queue_simps)
    have "handler3 s 3 = handler3 s' 3"
      unfolding s'_def using assms that by (rule handler3_port_open(1))
    also have "\<dots> = Inr s'"
      using l q3 by (rule handler3_done)
    finally show ?thesis using b n o by (intro exI [of _ s'] conjI)
  qed
  have dec: "Unmarshall [''w'', ''h'', ''h'', ''h'', ''h''] (resize_message 0 (rows s) (cols s)) 0 =
      Some [0, VIRTIO_CONSOLE_RESIZE, 0, rows s mod 2 ^ 16, cols s mod 2 ^ 16]"
    using decode_resize_message [of 0 "rows s" "cols s"] by simp
  have bytes: "resize_message 0 (rows s) (cols s) = [0, 0, 0, 0, 5, 0, 0, 0, 30, 0, 100, 0]"
    if "rows s = 30 \<and> cols s = 100"
    using that resize_30_100 by simp
  from zero empty other dec bytes show ?thesis
    by (intro conjI impI) (elim conjE; assumption)+
qed


theorem port_open_sends_size_witness:
  "3 < length (queues (control_example (control_request 0 6 0))) \<and>
   pending (queues (control_example (control_request 0 6 0)) ! 3) = [control_request 0 6 0] \<and>
   message_of (control_request 0 6 0) = Some [0, VIRTIO_CONSOLE_PORT_OPEN, 0] \<and>
   pending (queues (control_example (control_request 0 6 0)) ! 2) \<noteq> [] \<and>
   rows (control_example (control_request 0 6 0)) = 30 \<and>
   cols (control_example (control_request 0 6 0)) = 100 \<and>
   (\<exists>s'. handler3 (control_example (control_request 0 6 0)) 3 = Inr s' \<and>
      replies (queues s' ! 2) =
        [\<lparr>head_idx = 0, readable = [], written = [0, 0, 0, 0, 5, 0, 0, 0, 30, 0, 100, 0]\<rparr>] \<and>
      pending (queues s' ! 2) =
        [\<lparr>head_idx = 1, readable = [], written = []\<rparr>, \<lparr>head_idx = 2, readable = [], written = []\<rparr>]) \<and>
   message_of (control_request 1 6 0) = Some [1, VIRTIO_CONSOLE_PORT_OPEN, 0] \<and>
   (\<exists>s'. handler3 (control_example (control_request 1 6 0)) 3 = Inr s' \<and>
      queues s' ! 2 = queues (control_example (control_request 1 6 0)) ! 2 \<and>
      bus_sent s' = [])"
proof -
  let ?m = "control_request 0 6 0" and ?n = "control_request 1 6 0"
  let ?s = "control_example ?m" and ?t = "control_example ?n"
  have 1: "3 < length (queues ?s)" and 2: "pending (queues ?s ! 3) = [?m]"
    and 4: "pending (queues ?s ! 2) \<noteq> []" and 5: "rows ?s = 30" and 6: "cols ?s = 100"
    by (simp_all add: control_example_simps empty_chains_3)
  have 3: "message_of ?m = Some [0, VIRTIO_CONSOLE_PORT_OPEN, 0]"
    by (simp add: message_of_request event_codes)
  have t1: "3 < length (queues ?t)" and t2: "pending (queues ?t ! 3) = [?n]"
    by (simp_all add: control_example_simps)
  have t3: "message_of ?n = Some [1, VIRTIO_CONSOLE_PORT_OPEN, 0]"
    by (simp add: message_of_request event_codes)
  note A = port_open_sends_size [OF 1 2 3]
  note B = port_open_sends_size [OF t1 t2 t3]
  note A [THEN conjunct1, THEN mp, OF conjI [OF refl 4]]
  then obtain s' where a: "handler3 ?s 3 = Inr s'"
    and b: "replies (queues s' ! 2) =
        replies (queues ?s ! 2) @
          [(hd (pending (queues ?s ! 2)))\<lparr>written := resize_message 0 (rows ?s) (cols ?s)\<rparr>]"
    and c: "pending (queues s' ! 2) = tl (pending (queues ?s ! 2))"
    by (elim exE conjE) (rule that; assumption)
  have first: "\<exists>s'. handler3 ?s 3 = Inr s' \<and>
      replies (queues s' ! 2) =
        [\<lparr>head_idx = 0, readable = [], written = [0, 0, 0, 0, 5, 0, 0, 0, 30, 0, 100, 0]\<rparr>] \<and>
      pending (queues s' ! 2) =
        [\<lparr>head_idx = 1, readable = [], written = []\<rparr>, \<lparr>head_idx = 2, readable = [], written = []\<rparr>]"
    using a b c
    by (intro exI [of _ s']) (simp add: control_example_simps empty_chains_3 resize_30_100)
  have "(1::nat) \<noteq> 0" by simp
  note B [THEN conjunct2, THEN conjunct2, THEN conjunct1, THEN mp, OF this]
  then obtain t' where a': "handler3 ?t 3 = Inr t'" and b': "bus_sent t' = bus_sent ?t"
    and c': "\<forall>i. i \<noteq> 3 \<longrightarrow> queues t' ! i = queues ?t ! i"
    by (elim exE conjE) (rule that; assumption)
  from c' have "queues t' ! 2 = queues ?t ! 2" by simp
  with a' b' have second: "\<exists>s'. handler3 ?t 3 = Inr s' \<and> queues s' ! 2 = queues ?t ! 2 \<and>
      bus_sent s' = []"
    by (intro exI [of _ t']) (simp add: control_example_eq)
  from 1 2 3 4 5 6 first t3 second show ?thesis
    by (intro conjI)
qed


text \<open>
  Claim C5 as the spec states it, with no condition on queue 2, fails. A device built with
  30 rows and 100 columns receives \<^verbatim>\<open>PortOpen\<close> for port 0 while the driver has posted no
  buffer on queue 2: \<^verbatim>\<open>SendWindowSize\<close> pops a request from the empty queue, and no
  \<^verbatim>\<open>Resize\<close> message is sent.
\<close>

theorem port_open_counterexample:
  "rows (guest_post two_ports 3 [control_request 0 6 0]) = 30 \<and>
   cols (guest_post two_ports 3 [control_request 0 6 0]) = 100 \<and>
   pending (queues (guest_post two_ports 3 [control_request 0 6 0]) ! 3) =
     [control_request 0 6 0] \<and>
   message_of (control_request 0 6 0) = Some [0, VIRTIO_CONSOLE_PORT_OPEN, 0] \<and>
   pending (queues (guest_post two_ports 3 [control_request 0 6 0]) ! 2) = [] \<and>
   handler3 (guest_post two_ports 3 [control_request 0 6 0]) 3 = Inl PopEmpty"
proof -
  let ?m = "control_request 0 6 0"
  let ?s = "guest_post two_ports 3 [?m]"
  have r: "rows ?s = 30" and c: "cols ?s = 100"
    by (simp_all add: guest_post_def put_queue_simps two_ports_eq)
  have l: "3 < length (queues ?s)"
    by (simp add: guest_post_def put_queue_simps two_ports_eq)
  have p: "pending (queues ?s ! 3) = ?m # []"
    by (simp add: guest_post_def put_queue_def two_ports_eq)
  have e: "pending (queues ?s ! 2) = []"
    by (simp add: guest_post_def put_queue_def two_ports_eq)
  have msg: "message_of ?m = Some [0, VIRTIO_CONSOLE_PORT_OPEN, 0]"
    by (simp add: message_of_request event_codes)
  have "handler3 ?s 3 = Inl PopEmpty"
    using l p msg e by (rule handler3_port_open_empty)
  with r c p msg e show ?thesis
    by (intro conjI)
qed


subsection \<open>The console bit of a port\<close>

lemma port_is_console_bit:
  assumes "p < 32"
  shows "port_is_console s p \<longleftrightarrow> bit (consolePortEnable s) p"
proof -
  let ?w = "word_of_int (consolePortEnable s) :: 32 word"
  have "port_is_console s p \<longleftrightarrow> (?w AND push_bit p 1) \<noteq> 0"
    using assms by (simp add: port_is_console_def and.commute)
  also have "\<dots> \<longleftrightarrow> bit ?w p"
    by (simp only: bit_iff_and_push_bit_not_eq_0)
  also have "\<dots> \<longleftrightarrow> bit (consolePortEnable s) p"
    using assms by (simp add: bit_word_of_int_iff)
  finally show ?thesis .
qed

lemma port_is_console_wraps: "port_is_console s (p + 32) = port_is_console s p"
  by (simp add: port_is_console_def)

lemma name_message_parts:
  "Unmarshall [''w'', ''h'', ''h''] (name_message p n) 0 =
     Some [p mod 2 ^ 32, VIRTIO_CONSOLE_PORT_NAME, 1]"
  "drop 8 (name_message p n) = TextEncoder_encode n @ [0]"
  using decode_event_message [of p VIRTIO_CONSOLE_PORT_NAME 1 "TextEncoder_encode n @ [0]"]
  by (simp_all add: name_message_def event_codes length_event_message)


text \<open>
  Below port 32 the handler does what claim C3 says. The control-transmit queue holds one
  message, \<^verbatim>\<open>PortReady\<close> for a port \<open>p\<close> below 32, and queue 2 holds a posted buffer for each
  message to send (three when bit \<open>p\<close> of \<^verbatim>\<open>consolePortEnable\<close> is set, two otherwise). Then
  the handler returns, and the chains it pushed on queue 2 are the oldest posted ones, in
  order, carrying: \<^verbatim>\<open>ConsolePort(p, 1)\<close> if bit \<open>p\<close> is set and nothing otherwise, then
  \<^verbatim>\<open>PortName(p, 1)\<close> followed by the bytes of \<^verbatim>\<open>"virtio-" + p\<close> and a zero byte, then
  \<^verbatim>\<open>PortOpen(p, 1)\<close>.
\<close>

theorem port_ready_sequence:
  assumes "3 < length (queues s)"
    and "pending (queues s ! 3) = [m]"
    and "message_of m = Some [p, VIRTIO_CONSOLE_PORT_READY, v]"
    and "p < 32"
    and "(if bit (consolePortEnable s) p then 3 else 2) \<le> length (pending (queues s ! 2))"
  shows "\<exists>s' sent. handler3 s 3 = Inr s' \<and>
     replies (queues s' ! 2) = replies (queues s ! 2) @ sent \<and>
     map written sent =
       (if bit (consolePortEnable s) p then [event_message p VIRTIO_CONSOLE_CONSOLE_PORT 1] else []) @
       [name_message p (''virtio-'' @ String_of_nat p),
        event_message p VIRTIO_CONSOLE_PORT_OPEN 1] \<and>
     map head_idx sent = map head_idx (take (length sent) (pending (queues s ! 2))) \<and>
     pending (queues s' ! 2) = drop (length sent) (pending (queues s ! 2)) \<and>
     map (\<lambda>b. Unmarshall [''w'', ''h'', ''h''] (written b) 0) sent =
       (if bit (consolePortEnable s) p then [Some [p, VIRTIO_CONSOLE_CONSOLE_PORT, 1]] else []) @
       [Some [p, VIRTIO_CONSOLE_PORT_NAME, 1], Some [p, VIRTIO_CONSOLE_PORT_OPEN, 1]] \<and>
     drop 8 (name_message p (''virtio-'' @ String_of_nat p)) =
       TextEncoder_encode (''virtio-'' @ String_of_nat p) @ [0]"
proof -
  let ?Q2 = "queues s ! 2" and ?Q3 = "queues s ! 3"
  let ?name = "name_message p (''virtio-'' @ String_of_nat p)"
  let ?msgs = "(if bit (consolePortEnable s) p
                then [event_message p VIRTIO_CONSOLE_CONSOLE_PORT 1] else []) @
               [?name, event_message p VIRTIO_CONSOLE_PORT_OPEN 1]"
  have msgs: "port_ready_messages s p = ?msgs"
    by (simp add: port_ready_messages_def port_is_console_bit [OF assms(4)])
  have len: "length ?msgs \<le> length (pending ?Q2)"
    using assms(5) by (simp split: if_splits)
  define sent where "sent = map (\<lambda>(b, m). b\<lparr>written := m\<rparr>) (zip (pending ?Q2) ?msgs)"
  define s' where "s' = put_queue
      (put_queue s 3
         (?Q3\<lparr>pending := [],
             replies := replies ?Q3 @ [m\<lparr>written := []\<rparr>, m\<lparr>written := []\<rparr>],
             flushed := Suc (Suc (length (replies ?Q3)))\<rparr>)) 2
      (answered ?Q2 ?msgs)"
  have q2: "queues s' ! 2 = answered ?Q2 ?msgs"
    and q3: "pending (queues s' ! 3) = []" and l: "3 < length (queues s')"
    using assms(1) by (simp_all add: s'_def nth_put_queue put_queue_simps)
  have "length (port_ready_messages s p) \<le> length (pending ?Q2)"
    using len by (simp only: msgs)
  with assms(1-3) have "handler3 s 3 = handler3
      (put_queue
        (put_queue s 3
           (?Q3\<lparr>pending := [],
               replies := replies ?Q3 @ [m\<lparr>written := []\<rparr>, m\<lparr>written := []\<rparr>],
               flushed := Suc (Suc (length (replies ?Q3)))\<rparr>)) 2
        (answered ?Q2 (port_ready_messages s p))) 3"
    by (rule handler3_port_ready)
  then have "handler3 s 3 = handler3 s' 3"
    by (simp only: msgs s'_def)
  also have "\<dots> = Inr s'"
    using l q3 by (rule handler3_done)
  finally have run: "handler3 s 3 = Inr s'" .
  have w: "map written sent = ?msgs"
    unfolding sent_def using len by (rule written_of_answers)
  have n: "length sent = length ?msgs"
    using len by (simp add: sent_def)
  have h: "map head_idx sent = map head_idx (take (length sent) (pending ?Q2))"
    unfolding n unfolding sent_def by (rule head_idx_of_answers)
  have r: "replies (queues s' ! 2) = replies ?Q2 @ sent"
    by (simp add: q2 answered_def sent_def)
  have pd: "pending (queues s' ! 2) = drop (length sent) (pending ?Q2)"
    unfolding n by (simp add: q2 answered_def)
  have p32: "p < 2 ^ 32"
    using assms(4) by simp
  have d1: "Unmarshall [''w'', ''h'', ''h''] (event_message p VIRTIO_CONSOLE_CONSOLE_PORT 1) 0 =
      Some [p, VIRTIO_CONSOLE_CONSOLE_PORT, 1]"
    and d3: "Unmarshall [''w'', ''h'', ''h''] (event_message p VIRTIO_CONSOLE_PORT_OPEN 1) 0 =
      Some [p, VIRTIO_CONSOLE_PORT_OPEN, 1]"
    using p32 by (simp_all add: decode_event_small event_codes)
  have d2: "Unmarshall [''w'', ''h'', ''h''] ?name 0 = Some [p, VIRTIO_CONSOLE_PORT_NAME, 1]"
    using name_message_parts(1) [of p "''virtio-'' @ String_of_nat p"] p32 by simp
  have "map (\<lambda>b. Unmarshall [''w'', ''h'', ''h''] (written b) 0) sent =
      map (\<lambda>x. Unmarshall [''w'', ''h'', ''h''] x 0) (map written sent)"
    by simp
  also have "\<dots> =
      (if bit (consolePortEnable s) p then [Some [p, VIRTIO_CONSOLE_CONSOLE_PORT, 1]] else []) @
      [Some [p, VIRTIO_CONSOLE_PORT_NAME, 1], Some [p, VIRTIO_CONSOLE_PORT_OPEN, 1]]"
    unfolding w using d1 d2 d3 by simp
  finally have d: "map (\<lambda>b. Unmarshall [''w'', ''h'', ''h''] (written b) 0) sent =
      (if bit (consolePortEnable s) p then [Some [p, VIRTIO_CONSOLE_CONSOLE_PORT, 1]] else []) @
      [Some [p, VIRTIO_CONSOLE_PORT_NAME, 1], Some [p, VIRTIO_CONSOLE_PORT_OPEN, 1]]" .
  from run r w h pd d name_message_parts(2) [of p "''virtio-'' @ String_of_nat p"]
  show ?thesis
    by (intro exI [of _ s'] exI [of _ sent] conjI)
qed


lemma port_ready_bytes:
  "event_message 1 VIRTIO_CONSOLE_CONSOLE_PORT 1 = [1, 0, 0, 0, 4, 0, 1, 0]"
  "name_message 1 (''virtio-'' @ String_of_nat 1) =
     [1, 0, 0, 0, 7, 0, 1, 0, 118, 105, 114, 116, 105, 111, 45, 49, 0]"
  "event_message 1 VIRTIO_CONSOLE_PORT_OPEN 1 = [1, 0, 0, 0, 6, 0, 1, 0]"
  "name_message 4 (''virtio-'' @ String_of_nat 4) =
     [4, 0, 0, 0, 7, 0, 1, 0, 118, 105, 114, 116, 105, 111, 45, 52, 0]"
  "event_message 4 VIRTIO_CONSOLE_PORT_OPEN 1 = [4, 0, 0, 0, 6, 0, 1, 0]"
  "event_message 32 VIRTIO_CONSOLE_CONSOLE_PORT 1 = [32, 0, 0, 0, 4, 0, 1, 0]"
  "name_message 32 (''virtio-'' @ String_of_nat 32) =
     [32, 0, 0, 0, 7, 0, 1, 0, 118, 105, 114, 116, 105, 111, 45, 51, 50, 0]"
  "event_message 32 VIRTIO_CONSOLE_PORT_OPEN 1 = [32, 0, 0, 0, 6, 0, 1, 0]"
  by code_simp+

lemma bits_of_15: "bit (15::int) 1" "\<not> bit (15::int) 4" "\<not> bit (15::int) 32"
  by simp_all

theorem port_ready_sequence_witness:
  "3 < length (queues (control_example (control_request 1 3 0))) \<and>
   pending (queues (control_example (control_request 1 3 0)) ! 3) = [control_request 1 3 0] \<and>
   message_of (control_request 1 3 0) = Some [1, VIRTIO_CONSOLE_PORT_READY, 0] \<and>
   (1::nat) < 32 \<and>
   bit (consolePortEnable (control_example (control_request 1 3 0))) 1 \<and>
   3 \<le> length (pending (queues (control_example (control_request 1 3 0)) ! 2)) \<and>
   (\<exists>s' sent. handler3 (control_example (control_request 1 3 0)) 3 = Inr s' \<and>
      replies (queues s' ! 2) = sent \<and>
      map written sent =
        [[1, 0, 0, 0, 4, 0, 1, 0],
         [1, 0, 0, 0, 7, 0, 1, 0, 118, 105, 114, 116, 105, 111, 45, 49, 0],
         [1, 0, 0, 0, 6, 0, 1, 0]] \<and>
      pending (queues s' ! 2) = []) \<and>
   message_of (control_request 4 3 0) = Some [4, VIRTIO_CONSOLE_PORT_READY, 0] \<and>
   (4::nat) < 32 \<and>
   \<not> bit (consolePortEnable (control_example (control_request 4 3 0))) 4 \<and>
   (\<exists>s' sent. handler3 (control_example (control_request 4 3 0)) 3 = Inr s' \<and>
      replies (queues s' ! 2) = sent \<and>
      map written sent =
        [[4, 0, 0, 0, 7, 0, 1, 0, 118, 105, 114, 116, 105, 111, 45, 52, 0],
         [4, 0, 0, 0, 6, 0, 1, 0]] \<and>
      pending (queues s' ! 2) = [\<lparr>head_idx = 2, readable = [], written = []\<rparr>])"
proof -
  let ?m = "control_request 1 3 0" and ?n = "control_request 4 3 0"
  let ?s = "control_example ?m" and ?t = "control_example ?n"
  have s1: "3 < length (queues ?s)" and s2: "pending (queues ?s ! 3) = [?m]"
    and t1: "3 < length (queues ?t)" and t2: "pending (queues ?t ! 3) = [?n]"
    by (simp_all add: control_example_simps)
  have s3: "message_of ?m = Some [1, VIRTIO_CONSOLE_PORT_READY, 0]"
    and t3: "message_of ?n = Some [4, VIRTIO_CONSOLE_PORT_READY, 0]"
    by (simp_all add: message_of_request event_codes)
  have s4: "(1::nat) < 32" and t4: "(4::nat) < 32" by simp_all
  have sb: "bit (consolePortEnable ?s) 1" and tb: "\<not> bit (consolePortEnable ?t) 4"
    by (simp_all add: control_example_simps bits_of_15)
  have sl: "3 \<le> length (pending (queues ?s ! 2))"
    and tl: "2 \<le> length (pending (queues ?t ! 2))"
    by (simp_all add: control_example_simps length_empty_chains)
  have s5: "(if bit (consolePortEnable ?s) 1 then 3 else 2) \<le> length (pending (queues ?s ! 2))"
    using sb sl by simp
  have t5: "(if bit (consolePortEnable ?t) 4 then 3 else 2) \<le> length (pending (queues ?t ! 2))"
    using tb tl by simp
  have r: "replies (queues ?s ! 2) = []" "replies (queues ?t ! 2) = []"
    "pending (queues ?s ! 2) = empty_chains 3" "pending (queues ?t ! 2) = empty_chains 3"
    by (simp_all add: control_example_simps)
  from port_ready_sequence [OF s1 s2 s3 s4 s5] obtain s' sent where
    a: "handler3 ?s 3 = Inr s'"
    and b: "replies (queues s' ! 2) = replies (queues ?s ! 2) @ sent"
    and c: "map written sent =
       (if bit (consolePortEnable ?s) 1 then [event_message 1 VIRTIO_CONSOLE_CONSOLE_PORT 1] else []) @
       [name_message 1 (''virtio-'' @ String_of_nat 1), event_message 1 VIRTIO_CONSOLE_PORT_OPEN 1]"
    and d: "pending (queues s' ! 2) = drop (length sent) (pending (queues ?s ! 2))"
    by (elim exE conjE) (rule that; assumption)
  from c sb have c': "map written sent =
      [[1, 0, 0, 0, 4, 0, 1, 0],
       [1, 0, 0, 0, 7, 0, 1, 0, 118, 105, 114, 116, 105, 111, 45, 49, 0],
       [1, 0, 0, 0, 6, 0, 1, 0]]"
    unfolding port_ready_bytes by simp
  then have "length (map written sent) = 3" by simp
  then have n: "length sent = 3" by simp
  have first: "\<exists>s' sent. handler3 ?s 3 = Inr s' \<and> replies (queues s' ! 2) = sent \<and>
      map written sent =
        [[1, 0, 0, 0, 4, 0, 1, 0],
         [1, 0, 0, 0, 7, 0, 1, 0, 118, 105, 114, 116, 105, 111, 45, 49, 0],
         [1, 0, 0, 0, 6, 0, 1, 0]] \<and>
      pending (queues s' ! 2) = []"
    using a b [unfolded r] c' d [unfolded r n]
    by (intro exI [of _ s'] exI [of _ sent]) (simp add: length_empty_chains)
  from port_ready_sequence [OF t1 t2 t3 t4 t5] obtain t' sent' where
    a: "handler3 ?t 3 = Inr t'"
    and b: "replies (queues t' ! 2) = replies (queues ?t ! 2) @ sent'"
    and c: "map written sent' =
       (if bit (consolePortEnable ?t) 4 then [event_message 4 VIRTIO_CONSOLE_CONSOLE_PORT 1] else []) @
       [name_message 4 (''virtio-'' @ String_of_nat 4), event_message 4 VIRTIO_CONSOLE_PORT_OPEN 1]"
    and d: "pending (queues t' ! 2) = drop (length sent') (pending (queues ?t ! 2))"
    by (elim exE conjE) (rule that; assumption)
  from c tb have c': "map written sent' =
      [[4, 0, 0, 0, 7, 0, 1, 0, 118, 105, 114, 116, 105, 111, 45, 52, 0],
       [4, 0, 0, 0, 6, 0, 1, 0]]"
    unfolding port_ready_bytes by simp
  then have "length (map written sent') = 2" by simp
  then have n: "length sent' = 2" by simp
  have second: "\<exists>s' sent. handler3 ?t 3 = Inr s' \<and> replies (queues s' ! 2) = sent \<and>
      map written sent =
        [[4, 0, 0, 0, 7, 0, 1, 0, 118, 105, 114, 116, 105, 111, 45, 52, 0],
         [4, 0, 0, 0, 6, 0, 1, 0]] \<and>
      pending (queues s' ! 2) = [\<lparr>head_idx = 2, readable = [], written = []\<rparr>]"
    using a b [unfolded r] c' d [unfolded r n]
    by (intro exI [of _ t'] exI [of _ sent']) (simp add: empty_chains_3)
  from s1 s2 s3 s4 sb sl first t3 t4 tb second show ?thesis
    by (intro conjI)
qed


subsection \<open>A port from 32\<close>

definition thirty_three_ports :: VirtioConsole where
  \<comment> \<open>a device of 33 ports with the default \<^verbatim>\<open>consolePortEnable\<close>; the driver has posted three
     buffers on queue 2 and sent \<^verbatim>\<open>PortReady\<close> for port 32, the last port\<close>
  "thirty_three_ports =
     guest_post
       (guest_post
          (new_VirtioConsole \<lparr>opt_rows = None, opt_cols = None, opt_ports = Some 33,
                              opt_consolePortEnable = None\<rparr> False) 2
          (empty_chains 3)) 3
       [control_request 32 3 0]"

lemma thirty_three_ports_simps:
  "ports thirty_three_ports = 33"
  "consolePortEnable thirty_three_ports = 15"
  "length (queues thirty_three_ports) = 68"
  "queues thirty_three_ports ! 2 =
     \<lparr>queue_size = 16, notify = 2, configured = True, pending = empty_chains 3,
       replies = [], flushed = 0\<rparr>"
  "queues thirty_three_ports ! 3 =
     \<lparr>queue_size = 16, notify = 3, configured = True, pending = [control_request 32 3 0],
       replies = [], flushed = 0\<rparr>"
proof -
  let ?d = "new_VirtioConsole \<lparr>opt_rows = None, opt_cols = None, opt_ports = Some 33,
                              opt_consolePortEnable = None\<rparr> False"
  have p: "ports ?d = 33" and c: "consolePortEnable ?d = 15"
    by (simp_all add: new_VirtioConsole_def)
  have n: "length (queues ?d) = 68"
    by (simp add: new_VirtioConsole_def length_declared_queues)
  have q2: "queues ?d ! 2 =
      \<lparr>queue_size = 16, notify = 2, configured = False, pending = [], replies = [], flushed = 0\<rparr>"
    using new_VirtioConsole_queue [of 2 _ False] declared_queues_nth [of 2 33]
    by (simp add: p declare_queue_def)
  have q3: "queues ?d ! 3 =
      \<lparr>queue_size = 16, notify = 3, configured = False, pending = [], replies = [], flushed = 0\<rparr>"
    using new_VirtioConsole_queue [of 3 _ False] declared_queues_nth [of 3 33]
    by (simp add: p declare_queue_def)
  show "ports thirty_three_ports = 33"
    by (simp add: thirty_three_ports_def guest_post_def put_queue_simps p)
  show "consolePortEnable thirty_three_ports = 15"
    by (simp add: thirty_three_ports_def guest_post_def put_queue_simps c)
  show "length (queues thirty_three_ports) = 68"
    by (simp add: thirty_three_ports_def guest_post_def put_queue_simps n)
  show "queues thirty_three_ports ! 2 =
     \<lparr>queue_size = 16, notify = 2, configured = True, pending = empty_chains 3,
       replies = [], flushed = 0\<rparr>"
    using n by (simp add: thirty_three_ports_def guest_post_def nth_put_queue put_queue_simps q2)
  show "queues thirty_three_ports ! 3 =
     \<lparr>queue_size = 16, notify = 3, configured = True, pending = [control_request 32 3 0],
       replies = [], flushed = 0\<rparr>"
    using n by (simp add: thirty_three_ports_def guest_post_def nth_put_queue put_queue_simps q3)
qed

text \<open>
  Claim C3 fails on the code for a port from 32. The device has 33 ports and the default
  \<^verbatim>\<open>consolePortEnable = 0b1111\<close> (ports 0 to 3 are console ports, line 31), so the console
  bit of port 32 is not set; the driver sends \<^verbatim>\<open>PortReady\<close> for port 32. \<^verbatim>\<open>1 << 32\<close> is 1 in
  JavaScript, the test of line 165 finds bit 0 of the mask, and the first message pushed on
  queue 2 is \<^verbatim>\<open>ConsolePort(32, 1)\<close> (event code 4), which the claim says is omitted; the
  messages \<^verbatim>\<open>PortName(32, 1, "virtio-32")\<close> and \<^verbatim>\<open>PortOpen(32, 1)\<close> follow.
\<close>

theorem port_ready_shift_wraps:
  "ports thirty_three_ports = 33 \<and>
   \<not> bit (consolePortEnable thirty_three_ports) 32 \<and>
   pending (queues thirty_three_ports ! 3) = [control_request 32 3 0] \<and>
   message_of (control_request 32 3 0) = Some [32, VIRTIO_CONSOLE_PORT_READY, 0] \<and>
   handler3 thirty_three_ports 3 =
     Inr (put_queue
            (put_queue thirty_three_ports 3
               \<lparr>queue_size = 16, notify = 3, configured = True, pending = [],
                 replies = [control_request 32 3 0, control_request 32 3 0], flushed = 2\<rparr>) 2
            \<lparr>queue_size = 16, notify = 2, configured = True, pending = [],
              replies =
                [\<lparr>head_idx = 0, readable = [], written = [32, 0, 0, 0, 4, 0, 1, 0]\<rparr>,
                 \<lparr>head_idx = 1, readable = [],
                    written = [32, 0, 0, 0, 7, 0, 1, 0, 118, 105, 114, 116, 105, 111, 45, 51, 50, 0]\<rparr>,
                 \<lparr>head_idx = 2, readable = [], written = [32, 0, 0, 0, 6, 0, 1, 0]\<rparr>],
              flushed = 3\<rparr>) \<and>
   Unmarshall [''w'', ''h'', ''h''] [32, 0, 0, 0, 4, 0, 1, 0] 0 =
     Some [32, VIRTIO_CONSOLE_CONSOLE_PORT, 1]"
proof -
  let ?m = "control_request 32 3 0"
  let ?s = "thirty_three_ports"
  let ?Q3 = "\<lparr>queue_size = 16, notify = 3, configured = True, pending = [],
                 replies = [?m, ?m], flushed = 2\<rparr>"
  let ?Q2 = "\<lparr>queue_size = 16, notify = 2, configured = True, pending = [],
              replies =
                [\<lparr>head_idx = 0, readable = [], written = [32, 0, 0, 0, 4, 0, 1, 0]\<rparr>,
                 \<lparr>head_idx = 1, readable = [],
                    written = [32, 0, 0, 0, 7, 0, 1, 0, 118, 105, 114, 116, 105, 111, 45, 51, 50, 0]\<rparr>,
                 \<lparr>head_idx = 2, readable = [], written = [32, 0, 0, 0, 6, 0, 1, 0]\<rparr>],
              flushed = 3\<rparr>"
  have n: "ports ?s = 33"
    by (simp add: thirty_three_ports_simps)
  have bit: "\<not> bit (consolePortEnable ?s) 32"
    by (simp add: thirty_three_ports_simps bits_of_15)
  have msg: "message_of ?m = Some [32, VIRTIO_CONSOLE_PORT_READY, 0]"
    by (simp add: message_of_request event_codes)
  have l: "3 < length (queues ?s)" and p: "pending (queues ?s ! 3) = [?m]"
    by (simp_all add: thirty_three_ports_simps)
  have c: "port_is_console ?s 32"
    by (simp add: port_is_console_def thirty_three_ports_simps)
  have msgs: "port_ready_messages ?s 32 =
      [[32, 0, 0, 0, 4, 0, 1, 0],
       [32, 0, 0, 0, 7, 0, 1, 0, 118, 105, 114, 116, 105, 111, 45, 51, 50, 0],
       [32, 0, 0, 0, 6, 0, 1, 0]]"
    unfolding port_ready_messages_def port_ready_bytes using c by simp
  have k: "length (port_ready_messages ?s 32) \<le> length (pending (queues ?s ! 2))"
    unfolding msgs by (simp add: thirty_three_ports_simps length_empty_chains)
  have fresh: "?m\<lparr>written := []\<rparr> = ?m"
    by (simp add: control_request_def)
  have q3: "(queues ?s ! 3)\<lparr>pending := [],
        replies := replies (queues ?s ! 3) @ [?m\<lparr>written := []\<rparr>, ?m\<lparr>written := []\<rparr>],
        flushed := Suc (Suc (length (replies (queues ?s ! 3))))\<rparr> = ?Q3"
    unfolding fresh by (simp add: thirty_three_ports_simps)
  have q2: "answered (queues ?s ! 2) (port_ready_messages ?s 32) = ?Q2"
    unfolding msgs by (simp add: thirty_three_ports_simps answered_def empty_chains_3)
  have "handler3 ?s 3 = handler3 (put_queue (put_queue ?s 3 ?Q3) 2 ?Q2) 3"
    using handler3_port_ready [OF l p msg k] by (simp only: q3 q2)
  also have "\<dots> = Inr (put_queue (put_queue ?s 3 ?Q3) 2 ?Q2)"
    using l by (intro handler3_done) (simp_all add: put_queue_simps nth_put_queue)
  finally have run: "handler3 ?s 3 = Inr (put_queue (put_queue ?s 3 ?Q3) 2 ?Q2)" .
  have "Unmarshall [''w'', ''h'', ''h''] (event_message 32 VIRTIO_CONSOLE_CONSOLE_PORT 1) 0 =
      Some [32, VIRTIO_CONSOLE_CONSOLE_PORT, 1]"
    by (simp add: decode_event_small event_codes)
  then have dec: "Unmarshall [''w'', ''h'', ''h''] [32, 0, 0, 0, 4, 0, 1, 0] 0 =
      Some [32, VIRTIO_CONSOLE_CONSOLE_PORT, 1]"
    by (simp only: port_ready_bytes)
  from n bit p msg run dec show ?thesis
    by (intro conjI)
qed


text \<open>
  Claim C7 fails on the code. A production build (\<open>DEBUG\<close> is false) has two requests on
  queue 3: a message with event code 2 (\<^verbatim>\<open>DeviceRemove\<close>, which the \<^verbatim>\<open>switch\<close> does not
  handle), then \<^verbatim>\<open>DeviceReady\<close>. The handler acknowledges the first, and the \<^verbatim>\<open>return\<close> of
  the default case (line 179) leaves the handler: the second request is still pending
  when it returns, and nothing was sent on queue 2. The other cases end in \<^verbatim>\<open>break\<close> and go
  on with the loop.
\<close>

theorem unknown_event_leaves_requests:
  "\<not> DEBUG (guest_post (control_example (control_request 0 2 0)) 3
            [\<lparr>head_idx = 10, readable = event_message 0 0 0, written = []\<rparr>]) \<and>
   pending (queues (guest_post (control_example (control_request 0 2 0)) 3
            [\<lparr>head_idx = 10, readable = event_message 0 0 0, written = []\<rparr>]) ! 3) =
     [control_request 0 2 0, \<lparr>head_idx = 10, readable = event_message 0 0 0, written = []\<rparr>] \<and>
   message_of (control_request 0 2 0) = Some [0, VIRTIO_CONSOLE_DEVICE_REMOVE, 0] \<and>
   message_of \<lparr>head_idx = 10, readable = event_message 0 0 0, written = []\<rparr> =
     Some [0, VIRTIO_CONSOLE_DEVICE_READY, 0] \<and>
   handler3 (guest_post (control_example (control_request 0 2 0)) 3
            [\<lparr>head_idx = 10, readable = event_message 0 0 0, written = []\<rparr>]) 3 =
     Inr (put_queue (control_example (control_request 0 2 0)) 3
            \<lparr>queue_size = 16, notify = 3, configured = True,
              pending = [\<lparr>head_idx = 10, readable = event_message 0 0 0, written = []\<rparr>],
              replies = [control_request 0 2 0], flushed = 1\<rparr>)"
proof -
  let ?m = "control_request 0 2 0"
  let ?r = "\<lparr>head_idx = 10, readable = event_message 0 0 0, written = []\<rparr>"
  let ?s = "guest_post (control_example ?m) 3 [?r]"
  have dbg: "\<not> DEBUG ?s"
    by (simp add: guest_post_def put_queue_simps control_example_simps)
  have l: "3 < length (queues ?s)"
    by (simp add: guest_post_def put_queue_simps control_example_simps)
  have q: "queues ?s ! 3 =
      \<lparr>queue_size = 16, notify = 3, configured = True, pending = [?m, ?r],
        replies = [], flushed = 0\<rparr>"
    by (simp add: guest_post_def put_queue_def control_example_eq)
  then have p: "pending (queues ?s ! 3) = ?m # [?r]"
    by simp
  have msg: "message_of ?m = Some [0, VIRTIO_CONSOLE_DEVICE_REMOVE, 0]"
    by (simp add: message_of_request event_codes)
  have msg2: "message_of ?r = Some [0, VIRTIO_CONSOLE_DEVICE_READY, 0]"
    using decode_event_message [of 0 0 0 "[]"] by (simp add: message_of_def event_codes)
  have fresh: "?m\<lparr>written := []\<rparr> = ?m"
    by (simp add: control_request_def)
  have "handler3 ?s 3 =
      (if DEBUG ?s then Inl AssertFailed
       else Inr (put_queue ?s 3
              ((queues ?s ! 3)\<lparr>pending := [?r],
                 replies := replies (queues ?s ! 3) @ [?m\<lparr>written := []\<rparr>],
                 flushed := Suc (length (replies (queues ?s ! 3)))\<rparr>)))"
    using l p msg by (rule handler3_unknown) (simp_all add: event_codes)
  also have "\<dots> = Inr (put_queue (control_example ?m) 3
            \<lparr>queue_size = 16, notify = 3, configured = True, pending = [?r],
              replies = [?m], flushed = 1\<rparr>)"
    unfolding fresh q using dbg by (simp add: guest_post_def put_queue_twice)
  finally show ?thesis
    using dbg p msg msg2 by simp
qed


subsection \<open>Where a popped chain goes\<close>

lemma on_input_bytes_eq:
  assumes "input_queue_index p < length (queues s)"
    and "has_request (queues s ! input_queue_index p)"
  shows "on_input_bytes s p data =
     Inr (put_queue s (input_queue_index p) (answered (queues s ! input_queue_index p) [data]))"
proof -
  from assms(2) have "pending (queues s ! input_queue_index p) \<noteq> []"
    by (simp add: has_request_def)
  from send_on_queue [OF assms(1) this, of data] assms show ?thesis
    by (simp add: on_input_bytes_def Let_def the_queue_eq)
qed

lemma answered_one:
  assumes "q < length (queues s)" "pending (queues s ! q) \<noteq> []"
    and "r = Inr (put_queue s q (answered (queues s ! q) [d]))"
  shows "\<exists>s'. r = Inr s' \<and>
     pending (queues s' ! q) = tl (pending (queues s ! q)) \<and>
     replies (queues s' ! q) =
       replies (queues s ! q) @ [(hd (pending (queues s ! q)))\<lparr>written := d\<rparr>]"
  using assms by (simp add: nth_put_queue answered_single)

text \<open>
  Claim C1, as the code has it. The device pops a request in seven places, and this is
  what becomes of the chain in each of them.
  \<^item> The transmit handler pushes every chain it pops back on the same queue, once, with
    nothing written.
  \<^item> The input listener and \<^verbatim>\<open>SendEvent\<close>, \<^verbatim>\<open>SendName\<close>, \<^verbatim>\<open>SendWindowSize\<close> push the one
    chain they pop back on the same queue, once, with the data or the message written.
  \<^item> The control-transmit handler acknowledges a \<^verbatim>\<open>DeviceReady\<close> message, and in a
    production build a message with an event code it does not handle, once. (The
    \<^verbatim>\<open>PortReady\<close> and \<^verbatim>\<open>PortOpen\<close> cases are not part of this statement.)
  \<^item> The loop that keeps a receive queue from filling drops the chains it pops: the
    replies of the queue stay as they were.
\<close>

theorem popped_chains:
  assumes "3 < length (queues s)"
  shows
   "(q1 < length (queues s) \<longrightarrow>
       (\<exists>s'. handler1 s q1 = Inr s' \<and> pending (queues s' ! q1) = [] \<and>
          replies (queues s' ! q1) =
            replies (queues s ! q1) @ map (\<lambda>b. b\<lparr>written := []\<rparr>) (pending (queues s ! q1)))) \<and>
    (input_queue_index p < length (queues s) \<and> has_request (queues s ! input_queue_index p) \<longrightarrow>
       (\<exists>s'. on_input_bytes s p data = Inr s' \<and>
          pending (queues s' ! input_queue_index p) = tl (pending (queues s ! input_queue_index p)) \<and>
          replies (queues s' ! input_queue_index p) =
            replies (queues s ! input_queue_index p) @
              [(hd (pending (queues s ! input_queue_index p)))\<lparr>written := data\<rparr>])) \<and>
    (has_request (queues s ! 2) \<longrightarrow>
       (\<exists>s'. SendEvent s p e v = Inr s' \<and>
          pending (queues s' ! 2) = tl (pending (queues s ! 2)) \<and>
          replies (queues s' ! 2) =
            replies (queues s ! 2) @ [(hd (pending (queues s ! 2)))\<lparr>written := event_message p e v\<rparr>]) \<and>
       (\<exists>s'. SendName s p name = Inr s' \<and>
          pending (queues s' ! 2) = tl (pending (queues s ! 2)) \<and>
          replies (queues s' ! 2) =
            replies (queues s ! 2) @ [(hd (pending (queues s ! 2)))\<lparr>written := name_message p name\<rparr>]) \<and>
       (\<exists>s'. SendWindowSize s p = Inr s' \<and>
          pending (queues s' ! 2) = tl (pending (queues s ! 2)) \<and>
          replies (queues s' ! 2) =
            replies (queues s ! 2) @
              [(hd (pending (queues s ! 2)))\<lparr>written := resize_message p (rows s) (cols s)\<rparr>])) \<and>
    (pending (queues s ! 3) = [m] \<and> message_of m = Some [p, e, v] \<and>
     e \<noteq> VIRTIO_CONSOLE_PORT_READY \<and> e \<noteq> VIRTIO_CONSOLE_PORT_OPEN \<and>
     (if e = VIRTIO_CONSOLE_DEVICE_READY then ports s \<le> length (pending (queues s ! 2))
      else \<not> DEBUG s) \<longrightarrow>
       (\<exists>s'. handler3 s 3 = Inr s' \<and> pending (queues s' ! 3) = [] \<and>
          replies (queues s' ! 3) = replies (queues s ! 3) @ [m\<lparr>written := []\<rparr>])) \<and>
    (q0 < length (queues s) \<and> 2 \<le> queue_size (queues s ! q0) \<longrightarrow>
       (\<exists>s'. handler0 s q0 = Inr s' \<and> (q0 = 2 \<longrightarrow> handler2 s q0 = Inr s') \<and>
          replies (queues s' ! q0) = replies (queues s ! q0) \<and>
          pending (queues s' ! q0) =
            drop (count_requests (queues s ! q0) - (queue_size (queues s ! q0) - 2))
              (pending (queues s ! q0))))"
proof (intro conjI impI)
  assume a: "q1 < length (queues s)"
  let ?Q = "queues s ! q1"
  let ?s' = "put_queue
      (s\<lparr>bus_sent := bus_sent s @
          map (\<lambda>b. (output_channel (port_of_queue q1), readable b)) (pending ?Q)\<rparr>) q1
      (answered ?Q (map (\<lambda>b. []) (pending ?Q)))"
  have "handler1 s q1 = Inr ?s'"
    unfolding handler1_def using a by (intro handler1_loop_eq) simp_all
  moreover have "queues ?s' ! q1 = answered ?Q (map (\<lambda>b. []) (pending ?Q))"
    using a by (simp add: nth_put_queue)
  ultimately show "\<exists>s'. handler1 s q1 = Inr s' \<and> pending (queues s' ! q1) = [] \<and>
      replies (queues s' ! q1) = replies ?Q @ map (\<lambda>b. b\<lparr>written := []\<rparr>) (pending ?Q)"
    by (intro exI [of _ ?s']) (simp add: answered_acks)
next
  assume a: "input_queue_index p < length (queues s) \<and> has_request (queues s ! input_queue_index p)"
  then have "pending (queues s ! input_queue_index p) \<noteq> []"
    by (simp add: has_request_def)
  with a on_input_bytes_eq [of p s data]
  show "\<exists>s'. on_input_bytes s p data = Inr s' \<and>
      pending (queues s' ! input_queue_index p) = tl (pending (queues s ! input_queue_index p)) \<and>
      replies (queues s' ! input_queue_index p) =
        replies (queues s ! input_queue_index p) @
          [(hd (pending (queues s ! input_queue_index p)))\<lparr>written := data\<rparr>]"
    by (intro answered_one) simp_all
next
  assume "has_request (queues s ! 2)"
  then have ne: "pending (queues s ! 2) \<noteq> []"
    by (simp add: has_request_def)
  from assms have l: "2 < length (queues s)" by simp
  show "\<exists>s'. SendEvent s p e v = Inr s' \<and>
      pending (queues s' ! 2) = tl (pending (queues s ! 2)) \<and>
      replies (queues s' ! 2) =
        replies (queues s ! 2) @ [(hd (pending (queues s ! 2)))\<lparr>written := event_message p e v\<rparr>]"
    using l ne SendEvent_eq [OF l ne] by (rule answered_one)
  show "\<exists>s'. SendName s p name = Inr s' \<and>
      pending (queues s' ! 2) = tl (pending (queues s ! 2)) \<and>
      replies (queues s' ! 2) =
        replies (queues s ! 2) @ [(hd (pending (queues s ! 2)))\<lparr>written := name_message p name\<rparr>]"
    using l ne SendName_eq [OF l ne] by (rule answered_one)
  show "\<exists>s'. SendWindowSize s p = Inr s' \<and>
      pending (queues s' ! 2) = tl (pending (queues s ! 2)) \<and>
      replies (queues s' ! 2) =
        replies (queues s ! 2) @
          [(hd (pending (queues s ! 2)))\<lparr>written := resize_message p (rows s) (cols s)\<rparr>]"
    using l ne SendWindowSize_eq [OF l ne] by (rule answered_one)
next
  assume a: "pending (queues s ! 3) = [m] \<and> message_of m = Some [p, e, v] \<and>
     e \<noteq> VIRTIO_CONSOLE_PORT_READY \<and> e \<noteq> VIRTIO_CONSOLE_PORT_OPEN \<and>
     (if e = VIRTIO_CONSOLE_DEVICE_READY then ports s \<le> length (pending (queues s ! 2))
      else \<not> DEBUG s)"
  let ?Q3 = "queues s ! 3"
  let ?Q3' = "?Q3\<lparr>pending := [], replies := replies ?Q3 @ [m\<lparr>written := []\<rparr>],
      flushed := Suc (length (replies ?Q3))\<rparr>"
  from a have pd: "pending ?Q3 = m # []" and msg: "message_of m = Some [p, e, v]"
    by simp_all
  show "\<exists>s'. handler3 s 3 = Inr s' \<and> pending (queues s' ! 3) = [] \<and>
      replies (queues s' ! 3) = replies ?Q3 @ [m\<lparr>written := []\<rparr>]"
  proof (cases "e = VIRTIO_CONSOLE_DEVICE_READY")
    case True
    let ?s' = "put_queue (put_queue s 3 ?Q3') 2
        (answered (queues s ! 2)
           (map (\<lambda>k. event_message k VIRTIO_CONSOLE_DEVICE_ADD 0) [0..<ports s]))"
    from a True have n: "ports s \<le> length (pending (queues s ! 2))"
      and msg': "message_of m = Some [p, VIRTIO_CONSOLE_DEVICE_READY, v]"
      by simp_all
    have q3: "queues ?s' ! 3 = ?Q3'" and l: "3 < length (queues ?s')"
      using assms by (simp_all add: nth_put_queue put_queue_simps)
    have "handler3 s 3 = handler3 ?s' 3"
      using assms pd msg' n by (rule handler3_device_ready)
    also have "\<dots> = Inr ?s'"
      using l by (rule handler3_done) (simp add: q3)
    finally show ?thesis
      by (intro exI [of _ ?s']) (simp add: q3)
  next
    case False
    let ?s' = "put_queue s 3 ?Q3'"
    from a False have dbg: "\<not> DEBUG s" and e: "e \<noteq> VIRTIO_CONSOLE_PORT_READY"
      "e \<noteq> VIRTIO_CONSOLE_PORT_OPEN"
      by simp_all
    have q3: "queues ?s' ! 3 = ?Q3'"
      using assms by (simp add: nth_put_queue)
    have "handler3 s 3 = (if DEBUG s then Inl AssertFailed else Inr ?s')"
      using assms pd msg False e by (rule handler3_unknown)
    with dbg show ?thesis
      by (intro exI [of _ ?s']) (simp add: q3)
  qed
next
  assume a: "q0 < length (queues s) \<and> 2 \<le> queue_size (queues s ! q0)"
  let ?Q = "queues s ! q0"
  let ?s' = "put_queue s q0
      (?Q\<lparr>pending := drop (length (pending ?Q) - (queue_size ?Q - 2)) (pending ?Q)\<rparr>)"
  from a have 0: "handler0 s q0 = Inr ?s'"
    by (intro handler0_eq) simp_all
  have 2: "handler2 s q0 = Inr ?s'" if "q0 = 2"
    using handler2_eq [of s] a that by simp
  have "queues ?s' ! q0 =
      ?Q\<lparr>pending := drop (length (pending ?Q) - (queue_size ?Q - 2)) (pending ?Q)\<rparr>"
    using a by (simp add: nth_put_queue)
  with 0 2 show "\<exists>s'. handler0 s q0 = Inr s' \<and> (q0 = 2 \<longrightarrow> handler2 s q0 = Inr s') \<and>
      replies (queues s' ! q0) = replies ?Q \<and>
      pending (queues s' ! q0) =
        drop (count_requests ?Q - (queue_size ?Q - 2)) (pending ?Q)"
    by (intro exI [of _ ?s']) (simp add: count_requests_def)
qed


definition busy_example :: VirtioConsole where
  \<comment> \<open>as \<open>control_example\<close> with \<^verbatim>\<open>DeviceReady\<close> waiting, and a posted buffer on queue 0 and
     two bytes of guest output on queue 1\<close>
  "busy_example =
     guest_post
       (guest_post (control_example (control_request 0 0 0)) 0
          [\<lparr>head_idx = 20, readable = [], written = []\<rparr>]) 1
       [\<lparr>head_idx = 30, readable = [104, 105], written = []\<rparr>]"

lemma busy_example_eq:
  "busy_example =
     \<lparr>rows = 30, cols = 100, ports = 2, consolePortEnable = 15,
      queues =
        [\<lparr>queue_size = 16, notify = 0, configured = True,
            pending = [\<lparr>head_idx = 20, readable = [], written = []\<rparr>], replies = [], flushed = 0\<rparr>,
         \<lparr>queue_size = 16, notify = 1, configured = True,
            pending = [\<lparr>head_idx = 30, readable = [104, 105], written = []\<rparr>],
            replies = [], flushed = 0\<rparr>,
         \<lparr>queue_size = 16, notify = 2, configured = True, pending = empty_chains 3,
            replies = [], flushed = 0\<rparr>,
         \<lparr>queue_size = 16, notify = 3, configured = True, pending = [control_request 0 0 0],
            replies = [], flushed = 0\<rparr>,
         \<lparr>queue_size = 16, notify = 0, configured = False, pending = [], replies = [], flushed = 0\<rparr>,
         \<lparr>queue_size = 8, notify = 1, configured = False, pending = [], replies = [], flushed = 0\<rparr>],
      bus_sent = [], DEBUG = False\<rparr>"
  by (simp add: busy_example_def guest_post_def put_queue_def control_example_eq)

theorem popped_chains_witness:
  "3 < length (queues busy_example) \<and>
   (1::nat) < length (queues busy_example) \<and>
   (\<exists>s'. handler1 busy_example 1 = Inr s' \<and> pending (queues s' ! 1) = [] \<and>
      replies (queues s' ! 1) = [\<lparr>head_idx = 30, readable = [104, 105], written = []\<rparr>]) \<and>
   input_queue_index 0 < length (queues busy_example) \<and>
   has_request (queues busy_example ! input_queue_index 0) \<and>
   (\<exists>s'. on_input_bytes busy_example 0 [7] = Inr s' \<and>
      pending (queues s' ! input_queue_index 0) = [] \<and>
      replies (queues s' ! input_queue_index 0) = [\<lparr>head_idx = 20, readable = [], written = [7]\<rparr>]) \<and>
   has_request (queues busy_example ! 2) \<and>
   (\<exists>s'. SendEvent busy_example 0 0 0 = Inr s' \<and>
      pending (queues s' ! 2) = tl (empty_chains 3) \<and>
      replies (queues s' ! 2) = [(hd (empty_chains 3))\<lparr>written := event_message 0 0 0\<rparr>]) \<and>
   pending (queues busy_example ! 3) = [control_request 0 0 0] \<and>
   message_of (control_request 0 0 0) = Some [0, 0, 0] \<and>
   ports busy_example \<le> length (pending (queues busy_example ! 2)) \<and>
   (\<exists>s'. handler3 busy_example 3 = Inr s' \<and> pending (queues s' ! 3) = [] \<and>
      replies (queues s' ! 3) = [control_request 0 0 0]) \<and>
   2 \<le> queue_size (queues busy_example ! 2) \<and>
   (\<exists>s'. handler0 busy_example 2 = Inr s' \<and> handler2 busy_example 2 = Inr s' \<and>
      replies (queues s' ! 2) = [] \<and> pending (queues s' ! 2) = empty_chains 3)"
proof -
  let ?s = busy_example and ?m = "control_request 0 0 0"
  have l: "3 < length (queues ?s)" and l1: "(1::nat) < length (queues ?s)"
    by (simp_all add: busy_example_eq)
  have i: "input_queue_index 0 = 0"
    by (simp add: input_queue_index_def)
  have q0: "queues ?s ! 0 = \<lparr>queue_size = 16, notify = 0, configured = True,
      pending = [\<lparr>head_idx = 20, readable = [], written = []\<rparr>], replies = [], flushed = 0\<rparr>"
    and q1: "queues ?s ! 1 = \<lparr>queue_size = 16, notify = 1, configured = True,
      pending = [\<lparr>head_idx = 30, readable = [104, 105], written = []\<rparr>],
      replies = [], flushed = 0\<rparr>"
    and q2: "queues ?s ! 2 = \<lparr>queue_size = 16, notify = 2, configured = True,
      pending = empty_chains 3, replies = [], flushed = 0\<rparr>"
    and q3: "queues ?s ! 3 = \<lparr>queue_size = 16, notify = 3, configured = True,
      pending = [?m], replies = [], flushed = 0\<rparr>"
    and p: "ports ?s = 2"
    by (simp_all add: busy_example_eq)
  have li: "input_queue_index 0 < length (queues ?s)"
    and hi: "has_request (queues ?s ! input_queue_index 0)"
    and h2: "has_request (queues ?s ! 2)"
    and p3: "pending (queues ?s ! 3) = [?m]"
    and n: "ports ?s \<le> length (pending (queues ?s ! 2))"
    and l2: "(2::nat) < length (queues ?s)"
    and z: "2 \<le> queue_size (queues ?s ! 2)"
    unfolding i q0 q2 q3 p using l by (auto simp: has_request_def length_empty_chains empty_chains_3)
  have msg: "message_of ?m = Some [0, 0, 0]"
    by (simp add: message_of_request)
  have fresh: "?m\<lparr>written := []\<rparr> = ?m"
    by (simp add: control_request_def)
  note T = popped_chains [OF l, of 1 0 "[7]" 0 0 "''x''" ?m 2]
  have A: "\<exists>s'. handler1 ?s 1 = Inr s' \<and> pending (queues s' ! 1) = [] \<and>
      replies (queues s' ! 1) = [\<lparr>head_idx = 30, readable = [104, 105], written = []\<rparr>]"
    using T [THEN conjunct1, THEN mp, OF l1] unfolding q1 by simp
  have B: "\<exists>s'. on_input_bytes ?s 0 [7] = Inr s' \<and>
      pending (queues s' ! input_queue_index 0) = [] \<and>
      replies (queues s' ! input_queue_index 0) = [\<lparr>head_idx = 20, readable = [], written = [7]\<rparr>]"
    using T [THEN conjunct2, THEN conjunct1, THEN mp, OF conjI [OF li hi]]
    unfolding i q0 by simp
  have C: "\<exists>s'. SendEvent ?s 0 0 0 = Inr s' \<and>
      pending (queues s' ! 2) = tl (empty_chains 3) \<and>
      replies (queues s' ! 2) = [(hd (empty_chains 3))\<lparr>written := event_message 0 0 0\<rparr>]"
    using T [THEN conjunct2, THEN conjunct2, THEN conjunct1, THEN mp, OF h2, THEN conjunct1]
    unfolding q2 by simp
  have "pending (queues ?s ! 3) = [?m] \<and> message_of ?m = Some [0, 0, 0] \<and>
     (0::nat) \<noteq> VIRTIO_CONSOLE_PORT_READY \<and> (0::nat) \<noteq> VIRTIO_CONSOLE_PORT_OPEN \<and>
     (if (0::nat) = VIRTIO_CONSOLE_DEVICE_READY then ports ?s \<le> length (pending (queues ?s ! 2))
      else \<not> DEBUG ?s)"
    using p3 msg n by (simp add: event_codes)
  from T [THEN conjunct2, THEN conjunct2, THEN conjunct2, THEN conjunct1, THEN mp, OF this]
  have D: "\<exists>s'. handler3 ?s 3 = Inr s' \<and> pending (queues s' ! 3) = [] \<and>
      replies (queues s' ! 3) = [?m]"
    unfolding q3 fresh by simp
  have E: "\<exists>s'. handler0 ?s 2 = Inr s' \<and> handler2 ?s 2 = Inr s' \<and>
      replies (queues s' ! 2) = [] \<and> pending (queues s' ! 2) = empty_chains 3"
    using T [THEN conjunct2, THEN conjunct2, THEN conjunct2, THEN conjunct2, THEN mp,
        OF conjI [OF l2 z]]
    unfolding q2 by (simp add: count_requests_def length_empty_chains)
  from l l1 A li hi B h2 C p3 msg n D z E show ?thesis
    by (intro conjI)
qed


text \<open>
  Claim C1 as the spec states it fails twice. The driver sends \<^verbatim>\<open>PortOpen\<close> for port 1:
  the handler pushes the chain of the message (head index 9) on queue 3 twice, by the
  \<^verbatim>\<open>Ack\<close> of line 155 and the one of line 172. And with 16 requests pending on queue 2 the
  handler of queue 2 pops the two oldest, and they are not among the replies.
\<close>

theorem popped_chains_counterexample:
  "handler3 (control_example (control_request 1 6 0)) 3 =
     Inr (put_queue (control_example (control_request 1 6 0)) 3
            \<lparr>queue_size = 16, notify = 3, configured = True, pending = [],
              replies = [control_request 1 6 0, control_request 1 6 0], flushed = 2\<rparr>) \<and>
   handler2 (guest_post two_ports 2 (empty_chains 16)) 2 =
     Inr (put_queue (guest_post two_ports 2 (empty_chains 16)) 2
            \<lparr>queue_size = 16, notify = 2, configured = True,
              pending = drop 2 (empty_chains 16), replies = [], flushed = 0\<rparr>)"
proof -
  let ?m = "control_request 1 6 0"
  let ?s = "control_example ?m"
  let ?Q3 = "\<lparr>queue_size = 16, notify = 3, configured = True, pending = [],
              replies = [?m, ?m], flushed = 2\<rparr>"
  have l: "3 < length (queues ?s)" and p: "pending (queues ?s ! 3) = [?m]"
    by (simp_all add: control_example_simps)
  have msg: "message_of ?m = Some [1, VIRTIO_CONSOLE_PORT_OPEN, 0]"
    by (simp add: message_of_request event_codes)
  have fresh: "?m\<lparr>written := []\<rparr> = ?m"
    by (simp add: control_request_def)
  have q3: "(queues ?s ! 3)\<lparr>pending := [],
        replies := replies (queues ?s ! 3) @ [?m\<lparr>written := []\<rparr>, ?m\<lparr>written := []\<rparr>],
        flushed := Suc (Suc (length (replies (queues ?s ! 3))))\<rparr> = ?Q3"
    unfolding fresh by (simp add: control_example_eq)
  have "(1::nat) \<noteq> 0" by simp
  from handler3_port_open(1) [OF l p msg this]
  have "handler3 ?s 3 = handler3 (put_queue ?s 3 ?Q3) 3"
    by (simp only: q3)
  also have "\<dots> = Inr (put_queue ?s 3 ?Q3)"
    using l by (intro handler3_done) (simp_all add: put_queue_simps nth_put_queue)
  finally have first: "handler3 ?s 3 = Inr (put_queue ?s 3 ?Q3)" .
  let ?t = "guest_post two_ports 2 (empty_chains 16)"
  have t: "2 < length (queues ?t)"
    by (simp add: guest_post_def put_queue_simps two_ports_eq)
  have q: "queues ?t ! 2 =
      \<lparr>queue_size = 16, notify = 2, configured = True, pending = empty_chains 16,
        replies = [], flushed = 0\<rparr>"
    by (simp add: guest_post_def put_queue_def two_ports_eq)
  have "handler2 ?t 2 =
      Inr (put_queue ?t 2 ((queues ?t ! 2)
            \<lparr>pending := drop (length (pending (queues ?t ! 2)) - (queue_size (queues ?t ! 2) - 2))
                         (pending (queues ?t ! 2))\<rparr>))"
    using t by (rule handler2_eq) (simp add: q)
  then have second: "handler2 ?t 2 =
      Inr (put_queue ?t 2 \<lparr>queue_size = 16, notify = 2, configured = True,
              pending = drop 2 (empty_chains 16), replies = [], flushed = 0\<rparr>)"
    unfolding q by (simp add: length_empty_chains)
  from first second show ?thesis by (rule conjI)
qed


subsection \<open>More ports than posted buffers\<close>

lemma send_device_adds_short:
  "2 < length (queues s) \<Longrightarrow> length (pending (queues s ! 2)) < ports s - i \<Longrightarrow>
     send_device_adds s i = Inl PopEmpty"
proof (induction s i rule: send_device_adds.induct)
  case (1 s i)
  from "1.prems"(2) have lt: "i < ports s" by simp
  let ?m = "event_message i VIRTIO_CONSOLE_DEVICE_ADD 0"
  show ?case
  proof (cases "pending (queues s ! 2) = []")
    case True
    with "1.prems"(1) have "SendEvent s i VIRTIO_CONSOLE_DEVICE_ADD 0 = Inl PopEmpty"
      by (rule SendEvent_empty)
    with lt show ?thesis
      by (subst send_device_adds.simps) simp
  next
    case False
    define s1 where "s1 = put_queue s 2 (answered (queues s ! 2) [?m])"
    have ev: "SendEvent s i VIRTIO_CONSOLE_DEVICE_ADD 0 = Inr s1"
      unfolding s1_def using "1.prems"(1) False by (rule SendEvent_eq)
    have l1: "2 < length (queues s1)"
      and q1: "pending (queues s1 ! 2) = drop 1 (pending (queues s ! 2))"
      and p1: "ports s1 = ports s"
      using "1.prems"(1) by (simp_all add: s1_def nth_put_queue put_queue_simps answered_def)
    from False obtain b bs where pd: "pending (queues s ! 2) = b # bs"
      by (cases "pending (queues s ! 2)") auto
    from "1.prems"(2) have "Suc (length bs) < ports s - i"
      by (simp add: pd)
    then have "length bs < ports s - Suc i" by arith
    then have "length (pending (queues s1 ! 2)) < ports s1 - Suc i"
      by (simp add: q1 p1 pd)
    with "1.IH" [OF lt ev l1] have "send_device_adds s1 (Suc i) = Inl PopEmpty" .
    with lt ev show ?thesis
      by (subst send_device_adds.simps) simp
  qed
qed

lemma handler3_device_ready_short:
  assumes "3 < length (queues s)" "pending (queues s ! 3) = m # ms"
    and "message_of m = Some [p, VIRTIO_CONSOLE_DEVICE_READY, v]"
    and "length (pending (queues s ! 2)) < ports s"
  shows "handler3 s 3 = Inl PopEmpty"
proof -
  let ?s0 = "put_queue s 3 ((queues s ! 3)\<lparr>pending := ms\<rparr>)"
  let ?s1 = "put_queue ?s0 3 (flush_replies (push_reply (queues ?s0 ! 3) (m\<lparr>written := []\<rparr>)))"
  have l: "3 < length (queues ?s0)" and l1: "2 < length (queues ?s1)"
    and q2: "queues ?s1 ! 2 = queues s ! 2" and p: "ports ?s1 = ports s"
    using assms(1) by (simp_all add: put_queue_simps nth_put_queue)
  have msg: "message_of (m\<lparr>written := []\<rparr>) = Some [p, VIRTIO_CONSOLE_DEVICE_READY, v]"
    using assms(3) by (simp only: message_of_fresh)
  have "length (pending (queues ?s1 ! 2)) < ports ?s1 - 0"
    using assms(4) by (simp add: q2 p)
  with l1 have "send_device_adds ?s1 0 = Inl PopEmpty"
    by (rule send_device_adds_short)
  then have "control_message ?s0 3 (m\<lparr>written := []\<rparr>) = Inl PopEmpty"
    by (simp add: control_message_dispatch [OF l msg] bind_result_simps Let_def)
  then show ?thesis
    by (simp add: handler3_step [OF assms(1,2)])
qed

definition seventeen_ports :: VirtioConsole where
  \<comment> \<open>a device of 17 ports; the driver has filled all 16 slots of queue 2 with buffers and
     sent \<^verbatim>\<open>DeviceReady\<close>\<close>
  "seventeen_ports =
     guest_post
       (guest_post
          (new_VirtioConsole \<lparr>opt_rows = None, opt_cols = None, opt_ports = Some 17,
                              opt_consolePortEnable = None\<rparr> False) 2
          (empty_chains 16)) 3
       [control_request 0 0 0]"

lemma seventeen_ports_simps:
  "ports seventeen_ports = 17"
  "length (queues seventeen_ports) = 36"
  "queues seventeen_ports ! 2 =
     \<lparr>queue_size = 16, notify = 2, configured = True, pending = empty_chains 16,
       replies = [], flushed = 0\<rparr>"
  "pending (queues seventeen_ports ! 3) = [control_request 0 0 0]"
proof -
  let ?d = "new_VirtioConsole \<lparr>opt_rows = None, opt_cols = None, opt_ports = Some 17,
                              opt_consolePortEnable = None\<rparr> False"
  have p: "ports ?d = 17"
    by (simp add: new_VirtioConsole_def)
  have n: "length (queues ?d) = 36"
    by (simp add: new_VirtioConsole_def length_declared_queues)
  have q2: "queues ?d ! 2 =
      \<lparr>queue_size = 16, notify = 2, configured = False, pending = [], replies = [], flushed = 0\<rparr>"
    using new_VirtioConsole_queue [of 2 _ False] declared_queues_nth [of 2 17]
    by (simp add: p declare_queue_def)
  have q3: "queues ?d ! 3 =
      \<lparr>queue_size = 16, notify = 3, configured = False, pending = [], replies = [], flushed = 0\<rparr>"
    using new_VirtioConsole_queue [of 3 _ False] declared_queues_nth [of 3 17]
    by (simp add: p declare_queue_def)
  show "ports seventeen_ports = 17"
    by (simp add: seventeen_ports_def guest_post_def put_queue_simps p)
  show "length (queues seventeen_ports) = 36"
    by (simp add: seventeen_ports_def guest_post_def put_queue_simps n)
  show "queues seventeen_ports ! 2 =
     \<lparr>queue_size = 16, notify = 2, configured = True, pending = empty_chains 16,
       replies = [], flushed = 0\<rparr>"
    using n by (simp add: seventeen_ports_def guest_post_def nth_put_queue put_queue_simps q2)
  show "pending (queues seventeen_ports ! 3) = [control_request 0 0 0]"
    using n by (simp add: seventeen_ports_def guest_post_def nth_put_queue put_queue_simps q3)
qed

text \<open>
  Claim C4 as the spec states it, for any number of ports, fails. Queue 2 has 16 slots.
  A device of 17 ports whose driver has posted a buffer in every slot of queue 2 receives
  \<^verbatim>\<open>DeviceReady\<close>: the seventeenth \<^verbatim>\<open>SendEvent\<close> pops a request from the empty queue.
\<close>

theorem device_ready_counterexample:
  "ports seventeen_ports = 17 \<and>
   pending (queues seventeen_ports ! 3) = [control_request 0 0 0] \<and>
   message_of (control_request 0 0 0) = Some [0, VIRTIO_CONSOLE_DEVICE_READY, 0] \<and>
   count_requests (queues seventeen_ports ! 2) = queue_size (queues seventeen_ports ! 2) \<and>
   handler3 seventeen_ports 3 = Inl PopEmpty"
proof -
  have l: "3 < length (queues seventeen_ports)"
    by (simp add: seventeen_ports_simps)
  have p: "pending (queues seventeen_ports ! 3) = control_request 0 0 0 # []"
    by (simp add: seventeen_ports_simps)
  have msg: "message_of (control_request 0 0 0) = Some [0, VIRTIO_CONSOLE_DEVICE_READY, 0]"
    by (simp add: message_of_request event_codes)
  have n: "length (pending (queues seventeen_ports ! 2)) < ports seventeen_ports"
    by (simp add: seventeen_ports_simps length_empty_chains)
  have "handler3 seventeen_ports 3 = Inl PopEmpty"
    using l p msg n by (rule handler3_device_ready_short)
  then show ?thesis
    using msg by (simp add: seventeen_ports_simps count_requests_def length_empty_chains)
qed

end
